theory Spec2Isabelle
  imports Main "HOL-Library.Sublist" "HOL-Library.Char_ord" "HOL-Library.List_Lexorder"
begin

section \<open>Python string primitives used by the generator\<close>

text \<open>
  Strings are \<^typ>\<open>string\<close> (lists of 8-bit characters), so the model covers ASCII
  text; indices are \<^typ>\<open>int\<close> where the source can hold \<open>-1\<close>.
\<close>

text \<open>\<open>s.startswith(p)\<close>.\<close>

definition startswith :: "string \<Rightarrow> string \<Rightarrow> bool" where
  "startswith s p = prefix p s"

text \<open>The offset of the first occurrence of \<open>sub\<close> in \<open>s\<close>, if there is one.\<close>

fun find_first :: "string \<Rightarrow> string \<Rightarrow> nat option" where
  "find_first sub [] = (if sub = [] then Some 0 else None)"
| "find_first sub (c # cs) =
     (if prefix sub (c # cs) then Some 0 else map_option Suc (find_first sub cs))"

text \<open>\<open>s.find(sub, start)\<close>: the lowest index at or after \<open>start\<close>, or \<open>-1\<close>.
  A negative \<open>start\<close> counts from the end and is clipped at 0.\<close>

definition py_find :: "string \<Rightarrow> string \<Rightarrow> int \<Rightarrow> int" where
  "py_find s sub start =
     (let n = int (length s);
          st = (if start < 0 then max 0 (n + start) else start)
      in if st > n then - 1
         else (case find_first sub (drop (nat st) s) of
                 None \<Rightarrow> - 1
               | Some k \<Rightarrow> st + int k))"

text \<open>\<open>s.rfind(c)\<close> for a single character: the highest index, or \<open>-1\<close>.\<close>

definition py_rfind_char :: "string \<Rightarrow> char \<Rightarrow> int" where
  "py_rfind_char s c =
     (case filter (\<lambda>i. s ! i = c) (rev [0..<length s]) of
        [] \<Rightarrow> - 1
      | i # _ \<Rightarrow> int i)"

text \<open>Slice bounds as Python normalises them: negative bounds count from the end,
  and every bound is clipped to \<open>0..len\<close>.\<close>

definition slice_bound :: "nat \<Rightarrow> int \<Rightarrow> nat" where
  "slice_bound n i = (if i < 0 then nat (max 0 (int n + i)) else min (nat i) n)"

text \<open>\<open>s[a:b]\<close>, \<open>s[a:]\<close> and \<open>s[:b]\<close>.\<close>

definition py_slice :: "string \<Rightarrow> int \<Rightarrow> int \<Rightarrow> string" where
  "py_slice s a b =
     (let a' = slice_bound (length s) a; b' = slice_bound (length s) b
      in take (b' - a') (drop a' s))"

definition py_slice_from :: "string \<Rightarrow> int \<Rightarrow> string" where
  "py_slice_from s a = drop (slice_bound (length s) a) s"

definition py_slice_to :: "string \<Rightarrow> int \<Rightarrow> string" where
  "py_slice_to s b = take (slice_bound (length s) b) s"

section \<open>blocks.py: \<open>BlocksGenerator.varNameForType\<close>\<close>

text \<open>
  The alias dictionary \<open>self._dict_class_name_to_alias\<close> is a map from class names to
  alias names. The \<open>while t in dict: t = dict[t]\<close> loop has no iteration bound, so it is
  a partial function: \<open>None\<close> is the loop that never exits.
\<close>

partial_function (option) varNameForType_while ::
  "(string \<rightharpoonup> string) \<Rightarrow> string \<Rightarrow> string option" where
  "varNameForType_while d t =
     (case d t of None \<Rightarrow> Some t | Some t' \<Rightarrow> varNameForType_while d t')"

declare varNameForType_while.simps [code]

text \<open>The part of \<open>varNameForType\<close> after the loop.\<close>

definition varNameForType_name :: "string \<Rightarrow> string" where
  "varNameForType_name t =
     (if startswith t ''tuple'' then ''myTuple''
      else if startswith t ''dict'' then ''myDict''
      else if startswith t ''list'' then ''myList''
      else (let lastDot = py_rfind_char t CHR ''.''
            in if lastDot \<noteq> - 1 then ''my'' @ py_slice_from t (lastDot + 1)
               else ''''))"

definition varNameForType :: "(string \<rightharpoonup> string) \<Rightarrow> string \<Rightarrow> string option" where
  "varNameForType d t = map_option varNameForType_name (varNameForType_while d t)"

text \<open>The name reached from \<open>t\<close> after exactly \<open>n\<close> alias edges, when there are that many.\<close>

fun alias_chain :: "(string \<rightharpoonup> string) \<Rightarrow> nat \<Rightarrow> string \<Rightarrow> string option" where
  "alias_chain d 0 t = Some t"
| "alias_chain d (Suc n) t = (case d t of None \<Rightarrow> None | Some t' \<Rightarrow> alias_chain d n t')"

section \<open>The host object graph\<close>

text \<open>
  The generator only sees the examined library through Python's introspection. An object
  is an identity (what \<open>id(object)\<close> returns) in a store; the store gives, per identity,
  what \<open>inspect\<close>, \<open>getattr\<close>, \<open>str\<close> and \<open>type\<close> report for it.
\<close>

datatype inspect_tag =
  Module | Class | Function | GeneratorFunction | Generator | CoroutineFunction
  | Coroutine | Awaitable | AsyncGenFunction | AsyncGen | Traceback | Frame | Code
  | Builtin | MethodWrapper | Routine | Abstract | MethodDescriptor | DataDescriptor
  | GetSetDescriptor | MemberDescriptor

text \<open>
  The \<open>inspect\<close> predicates that hold of an object (\<open>inspect.ismodule\<close>, \<open>inspect.isclass\<close>,
  \<dots>, one tag per predicate that \<open>isNothing\<close> consults) and what else the generator reads:
  \<open>__name__\<close>, \<open>__module__\<close>, \<open>__doc__\<close> (which may be \<open>None\<close>), \<open>str(object)\<close>,
  \<open>inspect.getmembers(object)\<close>, \<open>getattr(object, name)\<close>, \<open>inspect.getmro(object)\<close>,
  \<open>type(object)\<close>, and the attribute \<open>fget\<close> (absent, \<open>None\<close>, or a getter).
\<close>

record pyobj =
  inspect_tags :: "inspect_tag set"
  dunder_name :: string
  dunder_module :: string
  dunder_doc :: "string option"
  str_of :: string
  getmembers :: "(string \<times> nat) list"
  attrs :: "string \<rightharpoonup> nat"
  getmro :: "nat list"
  type_of :: nat
  fget :: "nat option option"

text \<open>
  The interpreter as the generator meets it: the store of objects, the constant
  \<open>sys.stdlib_module_names\<close>, and \<open>importlib.import_module\<close> (no entry: the import raises).
\<close>

record host =
  heap :: "nat \<Rightarrow> pyobj"
  stdlib_module_names :: "string set"
  import_module :: "string \<rightharpoonup> nat"

definition isclass :: "host \<Rightarrow> nat \<Rightarrow> bool" where
  "isclass env obj = (Class \<in> inspect_tags (heap env obj))"

definition ismodule :: "host \<Rightarrow> nat \<Rightarrow> bool" where
  "ismodule env obj = (Module \<in> inspect_tags (heap env obj))"

text \<open>\<open>s.split(".")[0]\<close>.\<close>

definition split_dot_first :: "string \<Rightarrow> string" where
  "split_dot_first s = takeWhile (\<lambda>c. c \<noteq> CHR ''.'') s"

definition isBuiltInModuleName :: "host \<Rightarrow> string \<Rightarrow> bool" where
  "isBuiltInModuleName env first_module_name =
     (if first_module_name \<in> stdlib_module_names env then True
      else if first_module_name = ''pybind11_builtins'' then True
      else False)"

definition getFullModuleName :: "host \<Rightarrow> nat \<Rightarrow> string" where
  "getFullModuleName env m = dunder_name (heap env m)"

definition isBuiltInModule :: "host \<Rightarrow> nat \<Rightarrow> bool" where
  "isBuiltInModule env m = isBuiltInModuleName env (split_dot_first (getFullModuleName env m))"

definition isBuiltInClass :: "host \<Rightarrow> nat \<Rightarrow> bool" where
  "isBuiltInClass env cls =
     isBuiltInModuleName env (split_dot_first (dunder_module (heap env cls)))"

text \<open>The \<open>re.fullmatch\<close> of \<open>getFullClassName\<close> on \<open>str(cls)\<close>: the pattern is the
  literal \<open><class\<close>, a space and a quote, then the group \<open>(.+)\<close>, then a quote and \<open>>\<close>. The
  group is the text in between, which must be non-empty and free of line breaks (\<open>.\<close> does
  not match one).\<close>

definition match_class_repr :: "string \<Rightarrow> string option" where
  "match_class_repr s =
     (let n = length s; g = take (n - 10) (drop 8 s)
      in if 10 < n \<and> take 8 s = ''<class '' @ [CHR 0x27] \<and> drop (n - 2) s = [CHR 0x27, CHR ''>'']
            \<and> CHR 0x0A \<notin> set g
         then Some g else None)"

definition getFullClassName :: "host \<Rightarrow> nat \<Rightarrow> string" where
  "getFullClassName env cls =
     (case match_class_repr (str_of (heap env cls)) of
        Some g \<Rightarrow> g
      | None \<Rightarrow> dunder_module (heap env cls) @ ''.'' @ dunder_name (heap env cls))"

definition DICT_FULL_MODULE_NAME_TO_MODULE_NAME :: "(string \<times> string) list" where
  "DICT_FULL_MODULE_NAME_TO_MODULE_NAME =
   [(''hal._wpiHal'', ''hal''),
    (''hal.simulation._simulation'', ''hal.simulation''),
    (''ntcore._ntcore'', ''ntcore''),
    (''ntcore._ntcore.meta'', ''ntcore.meta''),
    (''wpilib._wpilib'', ''wpilib''),
    (''wpilib._wpilib.sysid'', ''wpilib.sysid''),
    (''wpilib.counter._counter'', ''wpilib.counter''),
    (''wpilib.drive._drive'', ''wpilib.drive''),
    (''wpilib.event._event'', ''wpilib.event''),
    (''wpilib.interfaces._interfaces'', ''wpilib.interfaces''),
    (''wpilib.shuffleboard._shuffleboard'', ''wpilib.shuffleboard''),
    (''wpilib.simulation._simulation'', ''wpilib.simulation''),
    (''wpimath._controls._controls.constraint'', ''wpimath.trajectory.constraint''),
    (''wpimath._controls._controls.controller'', ''wpimath.controller''),
    (''wpimath._controls._controls.estimator'', ''wpimath.estimator''),
    (''wpimath._controls._controls.optimization'', ''wpimath.optimization''),
    (''wpimath._controls._controls.path'', ''wpimath.path''),
    (''wpimath._controls._controls.plant'', ''wpimath.system.plant''),
    (''wpimath._controls._controls.system'', ''wpimath.system''),
    (''wpimath._controls._controls.trajectory'', ''wpimath.trajectory''),
    (''wpimath.filter._filter'', ''wpimath.filter''),
    (''wpimath.geometry._geometry'', ''wpimath.geometry''),
    (''wpimath.interpolation._interpolation'', ''wpimath.interpolation''),
    (''wpimath.kinematics._kinematics'', ''wpimath.kinematics''),
    (''wpimath.spline._spline'', ''wpimath.spline''),
    (''wpinet._wpinet'', ''wpinet''),
    (''wpiutil._wpiutil'', ''wpiutil''),
    (''wpiutil._wpiutil.log'', ''wpiutil.log''),
    (''wpiutil._wpiutil.sync'', ''wpiutil.sync''),
    (''wpiutil._wpiutil.wpistruct'', ''wpiutil.wpistruct'')]"

text \<open>The loop of \<open>getClassName\<close> over the table's items, in insertion order.\<close>

fun getClassName_items :: "(string \<times> string) list \<Rightarrow> string \<Rightarrow> string" where
  "getClassName_items [] full_class_name = full_class_name"
| "getClassName_items ((full_module_name, module_name) # items) full_class_name =
     (if startswith full_class_name (full_module_name @ ''.'')
      then module_name @ py_slice_from full_class_name (int (length full_module_name))
      else getClassName_items items full_class_name)"

definition getClassName :: "host \<Rightarrow> nat \<Rightarrow> string" where
  "getClassName env c =
     getClassName_items DICT_FULL_MODULE_NAME_TO_MODULE_NAME (getFullClassName env c)"

definition getModuleName :: "host \<Rightarrow> nat \<Rightarrow> string" where
  "getModuleName env m =
     (case map_of DICT_FULL_MODULE_NAME_TO_MODULE_NAME (dunder_name (heap env m)) of
        Some module_name \<Rightarrow> module_name
      | None \<Rightarrow> dunder_name (heap env m))"

section \<open>python_util.py: \<open>collectAllowedTypes\<close>\<close>






text \<open>A class object of module \<open>m\<close> named \<open>n\<close> with the given base-type chain.\<close>

definition class_obj :: "string \<Rightarrow> string \<Rightarrow> nat list \<Rightarrow> pyobj" where
  "class_obj m n mro =
     \<lparr>inspect_tags = {Class}, dunder_name = n, dunder_module = m, dunder_doc = None,
      str_of = ''<class '' @ [CHR 0x27] @ m @ ''.'' @ n @ [CHR 0x27, CHR ''>''],
      getmembers = [], attrs = Map.empty, getmro = mro, type_of = 0, fget = None\<rparr>"




section \<open>python_util.py: the signature parser\<close>

text \<open>What the parser and the class lookup can raise.\<close>

datatype error =
  ParseError | IndexError | ImportError | AttributeError | TypeError | NotAClass | NotARoutine

text \<open>\<open>s[i]\<close>: an index outside \<open>-len..len-1\<close> raises.\<close>

definition py_index :: "string \<Rightarrow> int \<Rightarrow> error + char" where
  "py_index s i =
     (let n = int (length s)
      in if - n \<le> i \<and> i < n then Inr (s ! nat (if i < 0 then n + i else i))
         else Inl IndexError)"

text \<open>The regular expression class \<open>\w\<close> on ASCII text.\<close>

definition is_word_char :: "char \<Rightarrow> bool" where
  "is_word_char c =
     ((CHR ''a'' \<le> c \<and> c \<le> CHR ''z'') \<or> (CHR ''A'' \<le> c \<and> c \<le> CHR ''Z'')
      \<or> (CHR ''0'' \<le> c \<and> c \<le> CHR ''9'') \<or> c = CHR ''_'')"

text \<open>
  The greedy tail \<open>(.*)\) \-\> (.+)\<close> of the signature pattern: the text is cut at the last
  occurrence of \<open>") -> "\<close> that still leaves a non-empty rest.
\<close>

fun split_last_arrow :: "string \<Rightarrow> (string \<times> string) option" where
  "split_last_arrow [] = None"
| "split_last_arrow (c # cs) =
     (case split_last_arrow cs of
        Some (a, r) \<Rightarrow> Some (c # a, r)
      | None \<Rightarrow>
          (if prefix '') -> '' (c # cs) \<and> 5 < length (c # cs)
           then Some ([], drop 5 (c # cs)) else None))"

text \<open>
  \<open>re.fullmatch(r"(\w+)\((.*)\) \-\> (.+)", line)\<close> with its three groups. The first group
  is the maximal run of word characters (the next character must be the parenthesis, which
  is not a word character); \<open>.\<close> matches anything but a line break.
\<close>

definition match_signature :: "string \<Rightarrow> (string \<times> string \<times> string) option" where
  "match_signature line =
     (let name = takeWhile is_word_char line; rest = dropWhile is_word_char line
      in if name = [] then None
         else (case rest of
                 [] \<Rightarrow> None
               | c # body \<Rightarrow>
                   if c \<noteq> CHR ''('' \<or> CHR 0x0A \<in> set body then None
                   else (case split_last_arrow body of
                           None \<Rightarrow> None
                         | Some (args, return_type) \<Rightarrow> Some (name, args, return_type))))"

definition isSignature :: "string \<Rightarrow> bool" where
  "isSignature line = (match_signature line \<noteq> None)"

text \<open>
  \<open>_findEndOfToken\<close>: the \<open>while i < len(text)\<close> loop with its stack of expected closers
  (the top of the stack is the last element). The callers pass \<open>i \<ge> 1\<close>.
\<close>

function findEndOfToken :: "string \<Rightarrow> nat \<Rightarrow> char list \<Rightarrow> char list \<Rightarrow> nat" where
  "findEndOfToken text i delimiters stack =
     (if i < length text then
        (if text ! i = CHR ''('' then findEndOfToken text (i + 1) delimiters (stack @ [CHR '')''])
         else if text ! i = CHR ''['' then findEndOfToken text (i + 1) delimiters (stack @ [CHR '']''])
         else if length stack > 0 then
           (if text ! i = last stack then findEndOfToken text (i + 1) delimiters (butlast stack)
            else findEndOfToken text (i + 1) delimiters stack)
         else if text ! i \<in> set delimiters then i
         else findEndOfToken text (i + 1) delimiters stack)
      else i)"
  by pat_completeness auto
termination
  by (relation "measure (\<lambda>(text, i, delimiters, stack). length text - i)") auto

declare findEndOfToken.simps [simp del]

text \<open>How one pass through a loop body ends.\<close>

datatype ('s, 'r) loop_exit = Continue 's | Break 'r | Raise error

type_synonym scan_state = "int \<times> string list \<times> string list \<times> string option list"

text \<open>
  The body of the \<open>while i < len(args)\<close> loop of \<open>processSignature\<close>. After
  \<open>i = args.find(": ", iStartOfArgName)\<close> the index is at least \<open>-1\<close>, so the two token
  scans start at a non-negative position.
\<close>

definition processSignature_body :: "string \<Rightarrow> scan_state \<Rightarrow> (scan_state, string list \<times> string list \<times> string option list) loop_exit" where
  "processSignature_body args st =
     (case st of (i0, arg_names, arg_types, arg_default_values) \<Rightarrow>
      let iStartOfArgName = i0;
          i = py_find args '': '' iStartOfArgName
      in if i = - 1 \<and> py_index args iStartOfArgName = Inl IndexError then Raise IndexError
         else if i = - 1 \<and> py_index args iStartOfArgName = Inr CHR ''*''
         then Break (arg_names @ [py_slice_from args (iStartOfArgName + 1)],
                     arg_types @ [''tuple''],
                     arg_default_values @ [None])
         else
           let arg_name = py_slice args iStartOfArgName i;
               iStartOfArgType = i + 2;
               i = int (findEndOfToken args (nat iStartOfArgType) [CHR '','', CHR '' ''] []);
               arg_type = py_slice args iStartOfArgType i;
               has_default = (i + 2 < int (length args) \<and> py_slice args i (i + 3) = '' = '');
               iStartOfDefaultValue = i + 3;
               i = (if has_default
                    then int (findEndOfToken args (nat iStartOfDefaultValue) [CHR '',''] [])
                    else i);
               arg_default_value =
                 (if has_default then Some (py_slice args iStartOfDefaultValue i) else None);
               i = (if i + 1 < int (length args) \<and> py_slice args i (i + 2) = '', ''
                    then i + 2 else i)
           in Continue (i, arg_names @ [arg_name], arg_types @ [arg_type],
                        arg_default_values @ [arg_default_value]))"

text \<open>The loop itself. Nothing bounds the number of passes, so it is a partial function:
  \<open>None\<close> is the loop that never exits.\<close>

partial_function (option) processSignature_while ::
  "string \<Rightarrow> scan_state \<Rightarrow> (error + string list \<times> string list \<times> string option list) option" where
  "processSignature_while args st =
     (if fst st < int (length args) then
        (case processSignature_body args st of
           Raise e \<Rightarrow> Some (Inl e)
         | Break r \<Rightarrow> Some (Inr r)
         | Continue st' \<Rightarrow> processSignature_while args st')
      else Some (Inr (snd st)))"

declare processSignature_while.simps [code]

type_synonym signature = "string \<times> string list \<times> string list \<times> string option list \<times> string"

definition processSignature :: "string \<Rightarrow> (error + signature) option" where
  "processSignature signature_line =
     (case match_signature signature_line of
        None \<Rightarrow> Some (Inl ParseError)
      | Some (function_name, args, return_type) \<Rightarrow>
          (case processSignature_while args (0, [], [], []) of
             None \<Rightarrow> None
           | Some (Inl e) \<Rightarrow> Some (Inl e)
           | Some (Inr (arg_names, arg_types, arg_default_values)) \<Rightarrow>
               Some (Inr (function_name, arg_names, arg_types, arg_default_values, return_type))))"


text \<open>The state of the loop of \<open>processSignature\<close> after \<open>k\<close> complete passes from \<open>st\<close>, when
  the loop makes that many without leaving.\<close>

fun processSignature_passes :: "string \<Rightarrow> nat \<Rightarrow> scan_state \<Rightarrow> scan_state option" where
  "processSignature_passes args 0 st = Some st"
| "processSignature_passes args (Suc k) st =
     (if fst st < int (length args) then
        (case processSignature_body args st of
           Continue st' \<Rightarrow> processSignature_passes args k st'
         | Break r \<Rightarrow> None
         | Raise e \<Rightarrow> None)
      else None)"

text \<open>Writing a signature line, following the grammar of the specification.\<close>

fun format_param :: "string \<times> string \<times> string option \<Rightarrow> string" where
  "format_param (n, t, None) = n @ '': '' @ t"
| "format_param (n, t, Some v) = n @ '': '' @ t @ '' = '' @ v"

fun join_params :: "string list \<Rightarrow> string" where
  "join_params [] = []"
| "join_params [p] = p"
| "join_params (p # q # ps) = p @ '', '' @ join_params (q # ps)"

definition format_signature :: "string \<Rightarrow> (string \<times> string \<times> string option) list \<Rightarrow> string \<Rightarrow> string" where
  "format_signature f ps ret = f @ ''('' @ join_params (map format_param ps) @ '') -> '' @ ret"

text \<open>
  A token in which the scanner of \<open>_findEndOfToken\<close> meets no delimiter outside brackets
  and ends with every opened bracket closed. The stack of expected closers has its top
  at the head.
\<close>

fun token_closed :: "char list \<Rightarrow> char list \<Rightarrow> string \<Rightarrow> bool" where
  "token_closed ds st [] = (st = [])"
| "token_closed ds st (c # cs) =
     (if c = CHR ''('' then token_closed ds (CHR '')'' # st) cs
      else if c = CHR ''['' then token_closed ds (CHR '']'' # st) cs
      else (case st of
              [] \<Rightarrow> c \<notin> set ds \<and> token_closed ds [] cs
            | closer # st' \<Rightarrow> if c = closer then token_closed ds st' cs else token_closed ds st cs))"

definition param_ok :: "string \<times> string \<times> string option \<Rightarrow> bool" where
  "param_ok p =
     (case p of (n, t, d) \<Rightarrow>
        \<not> sublist '': '' n \<and> token_closed [CHR '','', CHR '' ''] [] t
        \<and> (case d of None \<Rightarrow> True | Some v \<Rightarrow> token_closed [CHR '',''] [] v))"

section \<open>python_util.py: \<open>getClass\<close> and \<open>getClassesFromSignatureLine\<close>\<close>

text \<open>\<open>s.split(".")\<close>: never empty; \<open>"".split(".")\<close> is \<open>[""]\<close>.\<close>

fun split_dot :: "string \<Rightarrow> string list" where
  "split_dot [] = [[]]"
| "split_dot (c # cs) =
     (if c = CHR ''.'' then [] # split_dot cs
      else (case split_dot cs of
              [] \<Rightarrow> [[c]]
            | p # ps \<Rightarrow> (c # p) # ps))"

text \<open>The passes \<open>i > 0\<close> of the loop of \<open>getClass\<close>: one \<open>getattr\<close> per remaining part.\<close>

fun getClass_getattr :: "host \<Rightarrow> nat \<Rightarrow> string list \<Rightarrow> error + nat" where
  "getClass_getattr env obj [] = Inr obj"
| "getClass_getattr env obj (part # parts) =
     (case attrs (heap env obj) part of
        None \<Rightarrow> Inl AttributeError
      | Some member \<Rightarrow> getClass_getattr env member parts)"

text \<open>\<open>getClass\<close>: \<open>getModule\<close> on the first part (\<open>importlib.import_module\<close>, which raises
  for an unknown module), \<open>getattr\<close> on the others, and the final \<open>inspect.isclass\<close> test.\<close>

definition getClass :: "host \<Rightarrow> string \<Rightarrow> error + nat" where
  "getClass env full_class_name =
     (case split_dot full_class_name of
        [] \<Rightarrow> Inl IndexError
      | part # parts \<Rightarrow>
          (case import_module env part of
             None \<Rightarrow> Inl ImportError
           | Some module \<Rightarrow>
               (case getClass_getattr env module parts of
                  Inl e \<Rightarrow> Inl e
                | Inr obj \<Rightarrow> if \<not> isclass env obj then Inl NotAClass else Inr obj)))"

definition isPrimitiveType :: "string \<Rightarrow> bool" where
  "isPrimitiveType t = (t = ''bool'' \<or> t = ''str'' \<or> t = ''float'' \<or> t = ''int'')"

text \<open>
  The \<open>for arg_type in arg_types\<close> loop inside the \<open>try\<close> block. The list \<open>classes\<close> is
  mutated in place, so what was appended before an exception is still there afterwards:
  the loop returns the list together with the exception that ended it, if any.
\<close>

fun getClassesFromSignatureLine_for ::
  "host \<Rightarrow> string list \<Rightarrow> nat list \<Rightarrow> nat list \<times> error option" where
  "getClassesFromSignatureLine_for env [] classes = (classes, None)"
| "getClassesFromSignatureLine_for env (arg_type # arg_types) classes =
     (if isPrimitiveType arg_type then getClassesFromSignatureLine_for env arg_types classes
      else (case getClass env arg_type of
              Inl e \<Rightarrow> (classes, Some e)
            | Inr cls \<Rightarrow> getClassesFromSignatureLine_for env arg_types (classes @ [cls])))"

text \<open>\<open>getClassesFromSignatureLine\<close>: the bare \<open>except: pass\<close> swallows every exception,
  of \<open>processSignature\<close> as of \<open>getClass\<close>; \<open>None\<close> is a call that never returns.\<close>

definition getClassesFromSignatureLine :: "host \<Rightarrow> string \<Rightarrow> nat list option" where
  "getClassesFromSignatureLine env signature_line =
     (case processSignature signature_line of
        None \<Rightarrow> None
      | Some (Inl e) \<Rightarrow> Some []
      | Some (Inr (function_name, arg_names, arg_types, arg_default_values, return_type)) \<Rightarrow>
          (case getClassesFromSignatureLine_for env arg_types [] of
             (classes, Some e) \<Rightarrow> Some classes
           | (classes, None) \<Rightarrow>
               if return_type \<noteq> ''None'' \<and> return_type \<noteq> ''bool'' \<and> return_type \<noteq> ''str''
                  \<and> return_type \<noteq> ''float'' \<and> return_type \<noteq> ''int''
               then (case getClass env return_type of
                       Inl e \<Rightarrow> Some classes
                     | Inr cls \<Rightarrow> Some (classes @ [cls]))
               else Some classes))"

text \<open>A module object named \<open>n\<close> with the given attributes.\<close>

definition module_obj :: "string \<Rightarrow> (string \<times> nat) list \<Rightarrow> pyobj" where
  "module_obj n ms =
     \<lparr>inspect_tags = {Module}, dunder_name = n, dunder_module = '''', dunder_doc = None,
      str_of = ''<module '' @ [CHR 0x27] @ n @ [CHR 0x27, CHR ''>''],
      getmembers = ms, attrs = map_of ms, getmro = [], type_of = 0, fget = None\<rparr>"

text \<open>A library module \<open>robot\<close> (identity 10) with the classes \<open>Motor\<close> (11) and
  \<open>Sensor\<close> (12); nothing else can be imported.\<close>

definition robot_env :: host where
  "robot_env =
     \<lparr>heap = (\<lambda>i. if i = 10 then module_obj ''robot'' [(''Motor'', 11), (''Sensor'', 12)]
                   else if i = 11 then class_obj ''robot'' ''Motor'' [11, 0]
                   else if i = 12 then class_obj ''robot'' ''Sensor'' [12, 0]
                   else class_obj ''builtins'' ''object'' [0]),
      stdlib_module_names = {''builtins'', ''sys'', ''typing''},
      import_module = [''robot'' \<mapsto> 10]\<rparr>"

section \<open>python_util.py: \<open>processFunctionDoc\<close>\<close>

definition is_hex_digit :: "char \<Rightarrow> bool" where
  "is_hex_digit c =
     ((CHR ''0'' \<le> c \<and> c \<le> CHR ''9'') \<or> (CHR ''a'' \<le> c \<and> c \<le> CHR ''f'')
      \<or> (CHR ''A'' \<le> c \<and> c \<le> CHR ''F''))"

text \<open>The pattern \<open>" object at 0x[0-9a-fA-F]{9}"\<close> matches at the start of the text.\<close>

definition address_at :: "string \<Rightarrow> bool" where
  "address_at s =
     (prefix '' object at 0x'' s \<and> 22 \<le> length s \<and> list_all is_hex_digit (take 9 (drop 13 s)))"

text \<open>\<open>re.sub(pattern, "", doc)\<close>: one pass from the left; each match found is left out
  and the search goes on behind it.\<close>

fun sub_address :: "string \<Rightarrow> string" where
  "sub_address [] = []"
| "sub_address (c # cs) =
     (if address_at (c # cs) then sub_address (drop 21 cs) else c # sub_address cs)"

text \<open>The text contains a match of the pattern.\<close>

fun has_address :: "string \<Rightarrow> bool" where
  "has_address [] = False"
| "has_address (c # cs) = (address_at (c # cs) \<or> has_address cs)"

text \<open>The characters that can stand behind the first position of a match of the pattern:
  a hexadecimal digit, or one of the characters of \<open>" object at 0x"\<close>.\<close>

definition pattern_char :: "char \<Rightarrow> bool" where
  "pattern_char c = (c \<in> set '' object at 0x'' \<or> is_hex_digit c)"

text \<open>Every match of the pattern in the text ends the text or is followed by a character
  that cannot be part of a match, as in \<open><Motor object at 0x104f3c2b0>\<close>.\<close>

fun addresses_delimited :: "string \<Rightarrow> bool" where
  "addresses_delimited [] = True"
| "addresses_delimited (c # cs) =
     ((if address_at (c # cs) then (case drop 21 cs of [] \<Rightarrow> True | x # xs \<Rightarrow> \<not> pattern_char x)
       else True)
      \<and> addresses_delimited cs)"

text \<open>\<open>str.isspace\<close> on ASCII, and \<open>s.strip()\<close>.\<close>

definition is_space :: "char \<Rightarrow> bool" where
  "is_space c =
     (c = CHR '' '' \<or> (CHR 0x09 \<le> c \<and> c \<le> CHR 0x0D) \<or> (CHR 0x1C \<le> c \<and> c \<le> CHR 0x1F))"

definition py_strip :: "string \<Rightarrow> string" where
  "py_strip s = rev (dropWhile is_space (rev (dropWhile is_space s)))"

text \<open>\<open>str(n)\<close> for a natural number.\<close>

fun str_nat :: "nat \<Rightarrow> string" where
  "str_nat n =
     (if n < 10 then [char_of (48 + n)]
      else str_nat (n div 10) @ [char_of (48 + n mod 10)])"

declare str_nat.simps [simp del]

text \<open>The section marker \<open>f"\n\n{expected_number}. "\<close>.\<close>

definition section_marker :: "nat \<Rightarrow> string" where
  "section_marker expected_number = [CHR 0x0A, CHR 0x0A] @ str_nat expected_number @ ''. ''"

definition isroutine :: "host \<Rightarrow> nat \<Rightarrow> bool" where
  "isroutine env obj = (Routine \<in> inspect_tags (heap env obj))"

definition isOverloaded :: "host \<Rightarrow> nat \<Rightarrow> bool" where
  "isOverloaded env obj =
     (isroutine env obj \<and>
      (case dunder_doc (heap env obj) of
         None \<Rightarrow> False
       | Some doc \<Rightarrow>
           doc \<noteq> [] \<and>
           startswith doc (dunder_name (heap env obj) @ ''(*args, **kwargs)'' @ [CHR 0x0A]
                           @ ''Overloaded function.'' @ [CHR 0x0A, CHR 0x0A])))"

text \<open>The \<open>while True\<close> loop that looks for the section markers 1, 2, 3, \<dots> in turn.
  Every pass moves \<open>index\<close> behind a marker, so the loop ends.\<close>

function processFunctionDoc_while ::
  "string \<Rightarrow> nat \<Rightarrow> int \<Rightarrow> int list \<Rightarrow> int list \<Rightarrow> int list \<times> int list" where
  "processFunctionDoc_while doc expected_number index signatureIndices commentEndIndices =
     (if py_find doc (section_marker expected_number) index = - 1
      then (signatureIndices, commentEndIndices @ [int (length doc)])
      else processFunctionDoc_while doc (expected_number + 1)
             (py_find doc (section_marker expected_number) index
                + int (length (section_marker expected_number)))
             (signatureIndices @ [py_find doc (section_marker expected_number) index
                + int (length (section_marker expected_number))])
             (if expected_number > 1
              then commentEndIndices @ [py_find doc (section_marker expected_number) index]
              else commentEndIndices))"
  by pat_completeness auto
termination
proof (relation "measure (\<lambda>(doc, n, index, si, ce). nat (int (length doc) - index))")
  show "wf (measure (\<lambda>(doc, n, index, si, ce). nat (int (length doc) - index)))"
    by simp
next
  fix doc :: string and expected_number :: nat and index :: int
    and signatureIndices commentEndIndices :: "int list"
  let ?s = "section_marker expected_number"
  assume found: "py_find doc ?s index \<noteq> - 1"
  have ff: "find_first sub t = Some k \<Longrightarrow> k + length sub \<le> length t" for sub t k
  proof (induction t arbitrary: k)
    case Nil
    then show ?case by (simp split: if_splits)
  next
    case (Cons c cs)
    show ?case
    proof (cases "prefix sub (c # cs)")
      case True
      with Cons.prems have "k = 0" by simp
      with True prefix_length_le [of sub "c # cs"] show ?thesis by simp
    next
      case False
      with Cons.prems obtain k' where "find_first sub cs = Some k'" "k = Suc k'" by auto
      with Cons.IH show ?thesis by simp
    qed
  qed
  define st where "st = (if index < 0 then max 0 (int (length doc) + index) else index)"
  from found obtain k where k: "find_first ?s (drop (nat st) doc) = Some k"
    and r: "py_find doc ?s index = st + int k" and le: "st \<le> int (length doc)"
    by (auto simp: py_find_def Let_def st_def split: if_splits option.splits)
  from ff [OF k] have "nat st + k + length ?s \<le> length doc" using le by simp
  moreover have "0 \<le> st" "index \<le> st" by (auto simp: st_def)
  moreover have "0 < length ?s" by (simp add: section_marker_def)
  ultimately have "index < st + int k + int (length ?s)"
    and "st + int k + int (length ?s) \<le> int (length doc)"
    by linarith+
  then show "((doc, expected_number + 1, py_find doc ?s index + int (length ?s),
        signatureIndices @ [py_find doc ?s index + int (length ?s)],
        if 1 < expected_number then commentEndIndices @ [py_find doc ?s index]
        else commentEndIndices),
       doc, expected_number, index, signatureIndices, commentEndIndices)
      \<in> measure (\<lambda>(doc, n, index, si, ce). nat (int (length doc) - index))"
    unfolding r by simp
qed

declare processFunctionDoc_while.simps [simp del]

text \<open>The \<open>for i in range(len(signatureIndices))\<close> loop, reading \<open>signatureIndices[i]\<close> and
  \<open>commentEndIndices[i]\<close> side by side.\<close>

fun processFunctionDoc_for ::
  "string \<Rightarrow> int list \<Rightarrow> int list \<Rightarrow> string list \<Rightarrow> string list
     \<Rightarrow> error + string list \<times> string list" where
  "processFunctionDoc_for doc [] commentEndIndices signatures comments =
     Inr (signatures, comments)"
| "processFunctionDoc_for doc (index # signatureIndices) [] signatures comments =
     Inl IndexError"
| "processFunctionDoc_for doc (index # signatureIndices) (commentEnd # commentEndIndices)
       signatures comments =
     (let eolIndex = py_find doc [CHR 0x0A] index
      in processFunctionDoc_for doc signatureIndices commentEndIndices
           (signatures @ [py_slice doc index eolIndex])
           (comments @ [py_strip (py_slice doc (eolIndex + 1) commentEnd)]))"

text \<open>\<open>processFunctionDoc\<close>. A routine without documentation makes \<open>re.sub\<close> raise.\<close>

definition processFunctionDoc :: "host \<Rightarrow> nat \<Rightarrow> error + string list \<times> string list" where
  "processFunctionDoc env obj =
     (if \<not> isroutine env obj then Inl NotARoutine
      else (case dunder_doc (heap env obj) of
              None \<Rightarrow> Inl TypeError
            | Some d \<Rightarrow>
                let doc = sub_address d
                in if \<not> isOverloaded env obj
                   then (let eolIndex = py_find doc [CHR 0x0A] 0;
                             line = py_slice_to doc eolIndex
                         in if isSignature line
                            then Inr ([line], [py_strip (py_slice_from doc (eolIndex + 1))])
                            else Inr ([], []))
                   else (case processFunctionDoc_while doc 1 0 [] [] of
                           (signatureIndices, commentEndIndices) \<Rightarrow>
                             processFunctionDoc_for doc signatureIndices commentEndIndices [] [])))"

text \<open>A routine object named \<open>n\<close> with documentation \<open>d\<close>.\<close>

definition routine_obj :: "string \<Rightarrow> string \<Rightarrow> pyobj" where
  "routine_obj n d =
     \<lparr>inspect_tags = {Routine, Builtin}, dunder_name = n, dunder_module = '''',
      dunder_doc = Some d, str_of = ''<built-in method>'', getmembers = [], attrs = Map.empty,
      getmro = [], type_of = 0, fget = None\<rparr>"

definition doc_env :: "string \<Rightarrow> string \<Rightarrow> host" where
  "doc_env n d =
     \<lparr>heap = (\<lambda>i. routine_obj n d), stdlib_module_names = {''builtins''},
      import_module = Map.empty\<rparr>"

text \<open>The first line of a text, and what follows its line break.\<close>

definition first_line :: "string \<Rightarrow> string" where
  "first_line s = takeWhile (\<lambda>c. c \<noteq> CHR 0x0A) s"

definition after_first_line :: "string \<Rightarrow> string" where
  "after_first_line s = drop 1 (dropWhile (\<lambda>c. c \<noteq> CHR 0x0A) s)"

text \<open>An overloaded routine's documentation with sections 1, 2 and 3 (and a later
  section 5), and one whose last section is not ended by a line break.\<close>

definition overloaded_doc :: string where
  "overloaded_doc =
     ''f(*args, **kwargs)\<newline>Overloaded function.\<newline>\<newline>1. f(a: int) -> None\<newline>\<newline>First.\<newline>\<newline>2. f(a: str) -> None\<newline>\<newline>Second.\<newline>\<newline>3. f() -> int\<newline>\<newline>Third.\<newline>\<newline>5. f(x: int) -> int\<newline>\<newline>Not returned.\<newline>''"

definition unterminated_doc :: string where
  "unterminated_doc =
     ''f(*args, **kwargs)\<newline>Overloaded function.\<newline>\<newline>1. f(a: int) -> None\<newline>\<newline>2. f(a: str) -> None\<newline>\<newline>3. f() -> int''"

section \<open>blocks.py: \<open>BlocksGenerator.generateFunctionBlock\<close>\<close>

text \<open>
  The values plugged into input sockets, named after the Blockly block type they carry:
  \<open>valueVariableGetter\<close> builds a \<open>variables_get\<close> block, \<open>valueNumber\<close> a \<open>math_number\<close> shadow
  holding \<open>float(num_value)\<close>, \<open>valueString\<close> a \<open>text\<close> shadow and \<open>valueBoolean\<close> a
  \<open>logic_boolean\<close> shadow. Floating-point numbers are an abstract type \<open>'f\<close>.
\<close>

datatype 'f socket_value =
  VariablesGet string | MathNumber 'f | TextShadow string | LogicBoolean string

text \<open>A Python dictionary with string keys, in insertion order; \<open>d[k] = v\<close>.\<close>

fun dict_set :: "string \<Rightarrow> 'v \<Rightarrow> (string \<times> 'v) list \<Rightarrow> (string \<times> 'v) list" where
  "dict_set k v [] = [(k, v)]"
| "dict_set k v ((k', v') # d) = (if k' = k then (k, v) # d else (k', v') # dict_set k v d)"

text \<open>
  The block built by \<open>createBlock\<close>: its \<open>type\<close>, the four entries \<open>tooltip\<close>, \<open>returnType\<close>,
  \<open>args\<close> and \<open>importModule\<close> of \<open>extraState\<close>, the \<open>fields\<close> and the \<open>inputs\<close> (both
  present only when non-empty), in this order; and the \<open>variables_set\<close>
  block that \<open>variableSetter\<close> wraps around it. \<open>generateFunctionBlock\<close> returns the JSON
  text of this block; the model returns the block.
\<close>

datatype 'f block =
  Block string string string "(string \<times> string) list" string
        "(string \<times> string) list option" "(string \<times> 'f socket_value) list option"
  | VariablesSet string "'f block"

text \<open>The Python built-ins \<open>int\<close> and \<open>float\<close> on text: \<open>None\<close> is \<open>ValueError\<close>.\<close>

record 'f builtins =
  py_int :: "string \<Rightarrow> int option"
  py_float :: "string \<Rightarrow> 'f option"

text \<open>\<open>s.upper()\<close> and \<open>s.endswith(p)\<close> on ASCII text.\<close>

definition py_upper :: "string \<Rightarrow> string" where
  "py_upper s =
     map (\<lambda>c. if CHR ''a'' \<le> c \<and> c \<le> CHR ''z'' then char_of (of_char c - (32::nat)) else c) s"

definition endswith :: "string \<Rightarrow> string \<Rightarrow> bool" where
  "endswith s p = suffix p s"

definition valueNumber :: "'f builtins \<Rightarrow> string \<Rightarrow> 'f socket_value option" where
  "valueNumber b num_value = map_option MathNumber (py_float b num_value)"

definition valueString :: "string \<Rightarrow> 'f socket_value" where
  "valueString text_value =
     TextShadow
       (if (startswith text_value [CHR 0x22] \<and> endswith text_value [CHR 0x22])
           \<or> (startswith text_value [CHR 0x27] \<and> endswith text_value [CHR 0x27])
        then py_slice text_value 1 (- 1) else text_value)"

definition valueBoolean :: "string \<Rightarrow> 'f socket_value" where
  "valueBoolean bool_value = LogicBoolean (py_upper bool_value)"

text \<open>The three warnings printed to \<open>sys.stderr\<close>.\<close>

definition warning_integer :: "string \<Rightarrow> string" where
  "warning_integer d = ''WARNING - expected integer default value, found '' @ [CHR 0x22] @ d @ [CHR 0x22]"

definition warning_numeric :: "string \<Rightarrow> string" where
  "warning_numeric d = ''WARNING - expected numeric default value, found '' @ [CHR 0x22] @ d @ [CHR 0x22]"

definition warning_boolean :: "string \<Rightarrow> string" where
  "warning_boolean d = ''WARNING - expected boolean default value, found '' @ [CHR 0x22] @ d @ [CHR 0x22]"

text \<open>
  The \<open>elif arg_default_values[i]:\<close> branch for a declared type and a non-empty default:
  the value to plug in, if any, and the warning printed, if any. In the \<open>int\<close> and \<open>double\<close>
  branches the call of \<open>valueNumber\<close> is inside the \<open>try\<close>, so a \<open>ValueError\<close> of \<open>float\<close> is
  caught there too.
\<close>

definition default_value_input ::
  "'f builtins \<Rightarrow> string \<Rightarrow> string \<Rightarrow> 'f socket_value option \<times> string option" where
  "default_value_input b arg_type d =
     (if arg_type = ''int'' then
        (case py_int b d of
           None \<Rightarrow> (None, Some (warning_integer d))
         | Some n \<Rightarrow>
             (case valueNumber b d of
                None \<Rightarrow> (None, Some (warning_integer d))
              | Some v \<Rightarrow> (Some v, None)))
      else if arg_type = ''double'' then
        (case py_float b d of
           None \<Rightarrow> (None, Some (warning_numeric d))
         | Some x \<Rightarrow>
             (case valueNumber b d of
                None \<Rightarrow> (None, Some (warning_numeric d))
              | Some v \<Rightarrow> (Some v, None)))
      else if arg_type = ''str'' then
        (if d = ''None'' then (None, None) else (Some (valueString d), None))
      else if arg_type = ''bool'' then
        (if d = ''True'' \<or> d = ''False'' then (Some (valueBoolean d), None)
         else (None, Some (warning_boolean d)))
      else (None, None))"

text \<open>The key \<open>f'ARG{i}'\<close>.\<close>

definition arg_key :: "nat \<Rightarrow> string" where
  "arg_key i = ''ARG'' @ str_nat i"

type_synonym 'f args_state =
  "(string \<times> string) list \<times> (string \<times> 'f socket_value) list \<times> string list"

text \<open>
  One pass of \<open>for i in range(len(arg_names))\<close> on the state (\<open>extra_state['args']\<close>,
  \<open>inputs\<close>, the warnings printed so far). Reading \<open>arg_types[i]\<close> or
  \<open>arg_default_values[i]\<close> beyond the end of the list raises; \<open>None\<close> is an alias loop of
  \<open>varNameForType\<close> that never ends.
\<close>

definition generateFunctionBlock_body ::
  "'f builtins \<Rightarrow> (string \<rightharpoonup> string) \<Rightarrow> string list \<Rightarrow> string list \<Rightarrow> string option list
     \<Rightarrow> nat \<Rightarrow> 'f args_state \<Rightarrow> (error + 'f args_state) option" where
  "generateFunctionBlock_body b aliases arg_names arg_types arg_default_values i st =
     (case st of (args, inputs, warnings) \<Rightarrow>
        if \<not> i < length arg_types then Some (Inl IndexError)
        else
          (case varNameForType aliases (arg_types ! i) of
             None \<Rightarrow> None
           | Some var_name \<Rightarrow>
               let args' = args @ [(arg_names ! i, arg_types ! i)]
               in if var_name \<noteq> '''' then
                    Some (Inr (args', dict_set (arg_key i) (VariablesGet var_name) inputs, warnings))
                  else if \<not> i < length arg_default_values then Some (Inl IndexError)
                  else
                    (case arg_default_values ! i of
                       None \<Rightarrow> Some (Inr (args', inputs, warnings))
                     | Some d \<Rightarrow>
                         if d = '''' then Some (Inr (args', inputs, warnings))
                         else
                           (case default_value_input b (arg_types ! i) d of
                              (v, w) \<Rightarrow>
                                Some (Inr (args',
                                  (case v of None \<Rightarrow> inputs
                                   | Some x \<Rightarrow> dict_set (arg_key i) x inputs),
                                  (case w of None \<Rightarrow> warnings
                                   | Some t \<Rightarrow> warnings @ [t])))))))"

fun generateFunctionBlock_for ::
  "'f builtins \<Rightarrow> (string \<rightharpoonup> string) \<Rightarrow> string list \<Rightarrow> string list \<Rightarrow> string option list
     \<Rightarrow> nat list \<Rightarrow> 'f args_state \<Rightarrow> (error + 'f args_state) option" where
  "generateFunctionBlock_for b aliases arg_names arg_types arg_default_values [] st =
     Some (Inr st)"
| "generateFunctionBlock_for b aliases arg_names arg_types arg_default_values (i # is) st =
     (case generateFunctionBlock_body b aliases arg_names arg_types arg_default_values i st of
        None \<Rightarrow> None
      | Some (Inl e) \<Rightarrow> Some (Inl e)
      | Some (Inr st') \<Rightarrow>
          generateFunctionBlock_for b aliases arg_names arg_types arg_default_values is st')"

text \<open>\<open>createBlock\<close>: the fields are filled from \<open>field_names[i]\<close> and \<open>field_values[i]\<close>.\<close>

fun createBlock_fields ::
  "string list \<Rightarrow> string list \<Rightarrow> (string \<times> string) list \<Rightarrow> error + (string \<times> string) list" where
  "createBlock_fields [] field_values block_fields = Inr block_fields"
| "createBlock_fields (n # field_names) [] block_fields = Inl IndexError"
| "createBlock_fields (n # field_names) (v # field_values) block_fields =
     createBlock_fields field_names field_values (dict_set n v block_fields)"

definition createBlock ::
  "string \<Rightarrow> string \<Rightarrow> string \<Rightarrow> (string \<times> string) list \<Rightarrow> string \<Rightarrow> string list \<Rightarrow> string list
     \<Rightarrow> (string \<times> 'f socket_value) list \<Rightarrow> error + 'f block" where
  "createBlock block_type tooltip return_type args import_mod field_names field_values inputs =
     (case (if field_names \<noteq> [] then map_sum id Some (createBlock_fields field_names field_values [])
            else Inr None) of
        Inl e \<Rightarrow> Inl e
      | Inr block_fields \<Rightarrow>
          Inr (Block block_type tooltip return_type args import_mod block_fields
                 (if inputs \<noteq> [] then Some inputs else None)))"

definition generateFunctionBlock ::
  "'f builtins \<Rightarrow> (string \<rightharpoonup> string) \<Rightarrow> string \<Rightarrow> string list \<Rightarrow> string list \<Rightarrow> string
     \<Rightarrow> string \<Rightarrow> string list \<Rightarrow> string list \<Rightarrow> string option list \<Rightarrow> string
     \<Rightarrow> (error + 'f block \<times> string list) option" where
  "generateFunctionBlock b aliases block_type field_names field_values tooltip return_type
       arg_names arg_types arg_default_values import_mod =
     (case generateFunctionBlock_for b aliases arg_names arg_types arg_default_values
             [0..<length arg_names] ([], [], []) of
        None \<Rightarrow> None
      | Some (Inl e) \<Rightarrow> Some (Inl e)
      | Some (Inr (args, inputs, warnings)) \<Rightarrow>
          (case createBlock block_type tooltip return_type args import_mod
                  field_names field_values inputs of
             Inl e \<Rightarrow> Some (Inl e)
           | Inr block \<Rightarrow>
               if return_type \<noteq> '''' \<and> return_type \<noteq> ''None'' then
                 (case varNameForType aliases return_type of
                    None \<Rightarrow> None
                  | Some var_name \<Rightarrow>
                      if var_name \<noteq> '''' then Some (Inr (VariablesSet var_name block, warnings))
                      else Some (Inr (block, warnings)))
               else Some (Inr (block, warnings))))"

text \<open>The inputs of the function block, also when it is wrapped in a \<open>variables_set\<close>.\<close>

fun function_inputs :: "'f block \<Rightarrow> (string \<times> 'f socket_value) list" where
  "function_inputs (Block ty tt rt ar im fs ins) = (case ins of None \<Rightarrow> [] | Some l \<Rightarrow> l)"
| "function_inputs (VariablesSet v blk) = function_inputs blk"

text \<open>Decimal integer literals with an optional sign: the part of \<open>int\<close> and \<open>float\<close> that
  the examples need, the float being represented by its integer value.\<close>

definition decimal_literal :: "string \<Rightarrow> int option" where
  "decimal_literal s =
     (let (neg, ds) = (case s of
                         c # cs \<Rightarrow> if c = CHR ''-'' then (True, cs)
                                   else if c = CHR ''+'' then (False, cs) else (False, s)
                       | [] \<Rightarrow> (False, s))
      in if ds \<noteq> [] \<and> list_all (\<lambda>c. CHR ''0'' \<le> c \<and> c \<le> CHR ''9'') ds
         then Some ((if neg then - 1 else 1)
                    * foldl (\<lambda>a c. 10 * a + int (of_char c - (48::nat))) 0 ds)
         else None)"

definition decimal_builtins :: "int builtins" where
  "decimal_builtins = \<lparr>py_int = decimal_literal, py_float = decimal_literal\<rparr>"

text \<open>What one argument contributes, given the variable name found for its type: the value
  for its input socket, if any, and the warning printed, if any.\<close>

definition argument_effect ::
  "'f builtins \<Rightarrow> string \<Rightarrow> string \<Rightarrow> string option \<Rightarrow> 'f socket_value option \<times> string option" where
  "argument_effect b var_name arg_type dflt =
     (if var_name \<noteq> '''' then (Some (VariablesGet var_name), None)
      else (case dflt of
              None \<Rightarrow> (None, None)
            | Some d \<Rightarrow> if d = '''' then (None, None) else default_value_input b arg_type d))"

text \<open>The warnings that the arguments \<open>js\<close> print, in this order.\<close>

definition argument_warnings ::
  "'f builtins \<Rightarrow> (string \<rightharpoonup> string) \<Rightarrow> string list \<Rightarrow> string option list \<Rightarrow> nat list
     \<Rightarrow> string list" where
  "argument_warnings b aliases arg_types arg_default_values js =
     List.map_filter
       (\<lambda>j. snd (argument_effect b (the (varNameForType aliases (arg_types ! j)))
                   (arg_types ! j) (arg_default_values ! j)))
       js"

section \<open>python_util.py: \<open>collectModulesAndClasses\<close>\<close>

definition isdatadescriptor :: "host \<Rightarrow> nat \<Rightarrow> bool" where
  "isdatadescriptor env obj = (DataDescriptor \<in> inspect_tags (heap env obj))"

text \<open>\<open>isNothing\<close>: none of the 21 \<open>inspect\<close> predicates it lists holds.\<close>

definition isNothing :: "host \<Rightarrow> nat \<Rightarrow> bool" where
  "isNothing env obj =
     (\<forall>t \<in> set [Module, Class, Function, GeneratorFunction, Generator, CoroutineFunction,
                  Coroutine, Awaitable, AsyncGenFunction, AsyncGen, Traceback, Frame, Code,
                  Builtin, MethodWrapper, Routine, Abstract, MethodDescriptor, DataDescriptor,
                  GetSetDescriptor, MemberDescriptor].
        t \<notin> inspect_tags (heap env obj))"

definition startsWithUnderscoreDigit :: "string \<Rightarrow> bool" where
  "startsWithUnderscoreDigit s =
     (startswith s ''_'' \<and> length s > 1 \<and> CHR ''0'' \<le> s ! 1 \<and> s ! 1 \<le> CHR ''9'')"

definition ignoreMember :: "host \<Rightarrow> nat \<Rightarrow> string \<Rightarrow> nat \<Rightarrow> bool" where
  "ignoreMember env parent key member =
     (if ismodule env member then
        (if \<not> ismodule env parent then True
         else if \<not> startswith (dunder_name (heap env member)) (dunder_name (heap env parent))
         then True
         else if key = ''_impl'' \<or> key = ''deployinfo'' \<or> key = ''version'' then True
         else False)
      else if startswith key ''_'' then
        (if key \<noteq> ''__init__'' \<and> \<not> startsWithUnderscoreDigit key then True else False)
      else False)"

text \<open>\<open>isTypeAlias\<close>; a module or class object counts as true in \<open>and parent\<close>.\<close>

definition isTypeAlias :: "host \<Rightarrow> nat \<Rightarrow> string \<Rightarrow> nat \<Rightarrow> bool" where
  "isTypeAlias env parent key obj =
     (isclass env obj \<and> key \<noteq> '''' \<and> dunder_name (heap env obj) \<noteq> key
      \<and> (ismodule env parent \<or> isclass env parent))"

text \<open>
  The pattern \<open>(\w*)\((\w+)\: (.+)\) \-\> (.+)\<close> of \<open>_processGetter\<close> with its four groups:
  a possibly empty word, the parenthesis, a non-empty word, a colon and a space, and then
  the greedy cut at the last \<open>") -> "\<close>, with non-empty text on both sides.
\<close>

definition match_getter :: "string \<Rightarrow> (string \<times> string \<times> string \<times> string) option" where
  "match_getter line =
     (let var_name = takeWhile is_word_char line; rest = dropWhile is_word_char line
      in (case rest of
            [] \<Rightarrow> None
          | c # rest1 \<Rightarrow>
              let self_name = takeWhile is_word_char rest1;
                  rest2 = dropWhile is_word_char rest1;
                  body = drop 2 rest2
              in if c \<noteq> CHR ''('' \<or> self_name = [] \<or> \<not> prefix '': '' rest2
                    \<or> CHR 0x0A \<in> set body
                 then None
                 else (case split_last_arrow body of
                         None \<Rightarrow> None
                       | Some (self_type, var_type) \<Rightarrow>
                           if self_type = [] then None
                           else Some (var_name, self_name, self_type, var_type))))"

text \<open>
  \<open>getVarTypeFromGetter\<close> applied to the value of \<open>member.fget\<close>: whatever goes wrong
  (no getter, no documentation, no match) is caught and gives \<open>None\<close>.
\<close>

definition getVarTypeFromGetter :: "host \<Rightarrow> nat option \<Rightarrow> string option" where
  "getVarTypeFromGetter env fget_value =
     (case fget_value of
        None \<Rightarrow> None
      | Some f \<Rightarrow>
          (case dunder_doc (heap env f) of
             None \<Rightarrow> None
           | Some doc \<Rightarrow>
               (case match_getter (first_line doc) of
                  None \<Rightarrow> None
                | Some (var_name, self_name, self_type, var_type) \<Rightarrow> Some var_type)))"

text \<open>The class that the data-descriptor branch recurses into, if it does.\<close>

definition getter_class :: "host \<Rightarrow> nat \<Rightarrow> nat option" where
  "getter_class env member =
     (if isdatadescriptor env member then
        (case fget (heap env member) of
           None \<Rightarrow> None
         | Some fget_value \<Rightarrow>
             (case getVarTypeFromGetter env fget_value of
                None \<Rightarrow> None
              | Some var_type \<Rightarrow>
                  if var_type \<noteq> '''' \<and> py_find var_type ''.'' 0 \<noteq> - 1 then
                    (case getClass env var_type of
                       Inl e \<Rightarrow> None
                     | Inr cls \<Rightarrow> if \<not> isBuiltInClass env cls then Some cls else None)
                  else None))
      else None)"

text \<open>The state threaded through the walk: \<open>modules\<close>, \<open>classes\<close>,
  \<open>dict_class_name_to_alias\<close> and \<open>ids\<close>. An object is its identity, so \<open>id(object) in ids\<close>
  and \<open>object not in modules\<close> are membership tests on identities.\<close>

type_synonym walk_state = "nat list \<times> nat list \<times> (string \<times> string) list \<times> nat list"

text \<open>The \<open>if isTypeAlias(object, key, member)\<close> block.\<close>

definition record_alias :: "host \<Rightarrow> nat \<Rightarrow> string \<Rightarrow> nat \<Rightarrow> walk_state \<Rightarrow> walk_state" where
  "record_alias env obj key member st =
     (case st of (modules, classes, dict_class_name_to_alias, ids) \<Rightarrow>
        if isTypeAlias env obj key member then
          (let alias = getClassName env member
           in if ismodule env obj then
                (modules, classes,
                 dict_set (getModuleName env obj @ ''.'' @ key) alias dict_class_name_to_alias, ids)
              else if isclass env obj then
                (modules, classes,
                 dict_set (getClassName env obj @ ''.'' @ key) alias dict_class_name_to_alias, ids)
              else st)
        else st)"

text \<open>
  The loops inside \<open>_collectModulesAndClasses\<close>, each given the recursive call as
  \<open>recurse\<close>: over the base-type chain of a class member (left at the first built-in class),
  and over the classes of a routine's signature (built-in classes skipped).
\<close>

fun collect_mro ::
  "(nat \<Rightarrow> walk_state \<Rightarrow> walk_state option) \<Rightarrow> host \<Rightarrow> nat list \<Rightarrow> walk_state
     \<Rightarrow> walk_state option" where
  "collect_mro recurse env [] st = Some st"
| "collect_mro recurse env (cls # mro) st =
     (if isBuiltInClass env cls then Some st
      else Option.bind (recurse cls st) (\<lambda>st. collect_mro recurse env mro st))"

fun collect_signature ::
  "(nat \<Rightarrow> walk_state \<Rightarrow> walk_state option) \<Rightarrow> host \<Rightarrow> nat list \<Rightarrow> walk_state
     \<Rightarrow> walk_state option" where
  "collect_signature recurse env [] st = Some st"
| "collect_signature recurse env (cls # clss) st =
     (if isBuiltInClass env cls then collect_signature recurse env clss st
      else Option.bind (recurse cls st) (\<lambda>st. collect_signature recurse env clss st))"

text \<open>The body of \<open>for key, member in inspect.getmembers(object)\<close> after the two
  \<open>continue\<close> tests: the alias entry and the five places that may recurse, in order.\<close>

definition collect_member ::
  "(nat \<Rightarrow> walk_state \<Rightarrow> walk_state option) \<Rightarrow> host \<Rightarrow> nat \<Rightarrow> string \<Rightarrow> nat \<Rightarrow> walk_state
     \<Rightarrow> walk_state option" where
  "collect_member recurse env obj key member st =
     Option.bind
       (if ismodule env member then recurse member (record_alias env obj key member st)
        else Some (record_alias env obj key member st))
       (\<lambda>st. Option.bind
         (if isclass env member then collect_mro recurse env (getmro (heap env member)) st
          else Some st)
         (\<lambda>st. Option.bind
           (case dunder_doc (heap env member) of
              None \<Rightarrow> Some st
            | Some doc \<Rightarrow>
                if isroutine env member \<and> doc \<noteq> [] then
                  (case getClassesFromSignatureLine env (first_line doc) of
                     None \<Rightarrow> None
                   | Some clss \<Rightarrow> collect_signature recurse env clss st)
                else Some st)
           (\<lambda>st. Option.bind
             (if isNothing env member \<and> \<not> isBuiltInClass env (type_of (heap env member))
              then recurse (type_of (heap env member)) st
              else Some st)
             (\<lambda>st. case getter_class env member of
                      None \<Rightarrow> Some st
                    | Some cls \<Rightarrow> recurse cls st))))"

fun collect_members ::
  "(nat \<Rightarrow> walk_state \<Rightarrow> walk_state option) \<Rightarrow> host \<Rightarrow> nat \<Rightarrow> (string \<times> nat) list
     \<Rightarrow> walk_state \<Rightarrow> walk_state option" where
  "collect_members recurse env obj [] st = Some st"
| "collect_members recurse env obj ((key, member) # members) st =
     (if key = ''_'' then collect_members recurse env obj members st
      else if ignoreMember env obj key member then collect_members recurse env obj members st
      else Option.bind (collect_member recurse env obj key member st)
             (\<lambda>st. collect_members recurse env obj members st))"

text \<open>
  \<open>_collectModulesAndClasses\<close>. The object graph may be unbounded and \<open>processSignature\<close>
  may not return, so the recursion carries fuel for its depth: \<open>None\<close> is a walk that did
  not finish within it.
\<close>

primrec collect :: "nat \<Rightarrow> host \<Rightarrow> nat \<Rightarrow> walk_state \<Rightarrow> walk_state option" where
  "collect 0 env = (\<lambda>obj st. None)"
| "collect (Suc n) env =
     (\<lambda>obj st.
        case st of (modules, classes, dict_class_name_to_alias, ids) \<Rightarrow>
          if obj \<in> set ids then Some st
          else if ismodule env obj \<and> isBuiltInModule env obj
          then Some (modules, classes, dict_class_name_to_alias, ids @ [obj])
          else if isclass env obj \<and> isBuiltInClass env obj
          then Some (if ismodule env obj \<and> obj \<notin> set modules then modules @ [obj] else modules,
                     classes, dict_class_name_to_alias, ids @ [obj])
          else collect_members (collect n env) env obj (getmembers (heap env obj))
                 (if ismodule env obj \<and> obj \<notin> set modules then modules @ [obj] else modules,
                  if isclass env obj \<and> obj \<notin> set classes then classes @ [obj] else classes,
                  dict_class_name_to_alias, ids @ [obj]))"

text \<open>The loop of \<open>collectModulesAndClasses\<close> over the root modules.\<close>

fun collectModulesAndClasses_for ::
  "nat \<Rightarrow> host \<Rightarrow> nat list \<Rightarrow> walk_state \<Rightarrow> walk_state option" where
  "collectModulesAndClasses_for n env [] st = Some st"
| "collectModulesAndClasses_for n env (m # root_modules) st =
     Option.bind (collect n env m st) (\<lambda>st. collectModulesAndClasses_for n env root_modules st)"

text \<open>\<open>collectModulesAndClasses\<close>: the walk from empty lists, then the stable sort of the
  classes by their full class name.\<close>

definition collectModulesAndClasses ::
  "nat \<Rightarrow> host \<Rightarrow> nat list \<Rightarrow> (nat list \<times> nat list \<times> (string \<times> string) list) option" where
  "collectModulesAndClasses n env root_modules =
     (case collectModulesAndClasses_for n env root_modules ([], [], [], []) of
        None \<Rightarrow> None
      | Some (modules, classes, dict_class_name_to_alias, ids) \<Rightarrow>
          Some (modules, sort_key (getFullClassName env) classes, dict_class_name_to_alias))"

text \<open>
  Two root modules \<open>robot\<close> (identity 1) and \<open>robot.drive\<close> (2); the second is also a member
  of the first, and both have the class \<open>Motor\<close> (3) as a member, \<open>robot.drive\<close> also under
  the name \<open>Engine\<close>. The method \<open>spin\<close> (4) of \<open>Motor\<close> names \<open>Motor\<close> in its signature.
\<close>

definition shared_env :: host where
  "shared_env =
     \<lparr>heap = (\<lambda>i.
         if i = 1 then module_obj ''robot'' [(''Motor'', 3), (''drive'', 2)]
         else if i = 2 then module_obj ''robot.drive'' [(''Engine'', 3), (''Motor'', 3)]
         else if i = 3 then (class_obj ''robot'' ''Motor'' [3, 0])\<lparr>getmembers := [(''spin'', 4)]\<rparr>
         else if i = 4 then routine_obj ''spin'' ''spin(self: robot.Motor, speed: float) -> None''
         else class_obj ''builtins'' ''object'' [0]),
      stdlib_module_names = {''builtins'', ''sys'', ''typing''},
      import_module = [''robot'' \<mapsto> 1]\<rparr>"

text \<open>The lists of a walk state have no duplicates, and every module and class collected
  has been entered.\<close>

definition walk_inv :: "walk_state \<Rightarrow> bool" where
  "walk_inv st =
     (case st of (modules, classes, dict_class_name_to_alias, ids) \<Rightarrow>
        distinct ids \<and> distinct modules \<and> distinct classes
        \<and> set modules \<subseteq> set ids \<and> set classes \<subseteq> set ids)"

definition keeps_walk_inv :: "(nat \<Rightarrow> walk_state \<Rightarrow> walk_state option) \<Rightarrow> bool" where
  "keeps_walk_inv recurse =
     (\<forall>obj st st'. recurse obj st = Some st' \<longrightarrow> walk_inv st \<longrightarrow> walk_inv st')"

section \<open>Verified properties\<close>

subsection \<open>Alias resolution\<close>

lemma varNameForType_while_chain:
  "alias_chain d n t = Some r \<Longrightarrow> d r = None \<Longrightarrow> varNameForType_while d t = Some r"
proof (induction n arbitrary: t)
  case 0
  then show ?case by (simp add: varNameForType_while.simps)
next
  case (Suc n)
  then obtain t' where t': "d t = Some t'" "alias_chain d n t' = Some r"
    by (auto split: option.splits)
  with Suc have "varNameForType_while d t' = Some r" by blast
  with t' show ?case by (subst varNameForType_while.simps) simp
qed

lemma varNameForType_while_result:
  assumes "varNameForType_while d t = Some r"
  shows "d r = None \<and> (\<exists>n. alias_chain d n t = Some r)"
proof (rule varNameForType_while.raw_induct
    [where P = "\<lambda>d t r. d r = None \<and> (\<exists>n. alias_chain d n t = Some r)", OF _ assms])
  fix f :: "(string \<rightharpoonup> string) \<Rightarrow> string \<Rightarrow> string option" and d t r
  assume IH: "\<And>d t r. f d t = Some r \<Longrightarrow> d r = None \<and> (\<exists>n. alias_chain d n t = Some r)"
    and step: "(case d t of None \<Rightarrow> Some t | Some t' \<Rightarrow> f d t') = Some r"
  show "d r = None \<and> (\<exists>n. alias_chain d n t = Some r)"
  proof (cases "d t")
    case None
    with step have "r = t" by simp
    moreover have "alias_chain d 0 t = Some t" by simp
    ultimately show ?thesis using None by blast
  next
    case (Some t')
    with step have "f d t' = Some r" by simp
    then obtain n where "d r = None" "alias_chain d n t' = Some r"
      using IH by blast
    then have "alias_chain d (Suc n) t = Some r" using Some by simp
    then show ?thesis using \<open>d r = None\<close> by blast
  qed
qed

lemma varNameForType_while_closed_set:
  assumes closed: "\<And>x. x \<in> S \<Longrightarrow> \<exists>x' \<in> S. d x = Some x'"
    and start: "t \<in> S"
  shows "varNameForType_while d t = None"
proof (cases "varNameForType_while d t")
  case None
  then show ?thesis .
next
  case (Some r)
  have "d = d \<longrightarrow> t \<notin> S"
  proof (rule varNameForType_while.raw_induct
      [where P = "\<lambda>d' t' r. d' = d \<longrightarrow> t' \<notin> S", OF _ Some])
    fix f :: "(string \<rightharpoonup> string) \<Rightarrow> string \<Rightarrow> string option" and d' t' r
    assume IH: "\<And>d' t' r. f d' t' = Some r \<Longrightarrow> d' = d \<longrightarrow> t' \<notin> S"
      and step: "(case d' t' of None \<Rightarrow> Some t' | Some t'' \<Rightarrow> f d' t'') = Some r"
    show "d' = d \<longrightarrow> t' \<notin> S"
    proof (intro impI notI)
      assume eq: "d' = d" and "t' \<in> S"
      then obtain x' where x': "x' \<in> S" "d t' = Some x'" using closed by blast
      with step eq have "f d' x' = Some r" by simp
      with IH eq have "x' \<notin> S" by blast
      with x' show False by simp
    qed
  qed
  with start show ?thesis by simp
qed

text \<open>
  C1 (as stated, refuted). The claim says the alias loop of \<open>varNameForType\<close> stops on every
  alias map, failing with an alias-cycle error after at most (number of edges + 1) steps.
  On the two-edge cycle \<open>a \<rightarrow> b \<rightarrow> a\<close> the loop never exits: the call returns nothing at all.
\<close>

theorem varNameForType_cycle_diverges:
  "varNameForType [''a'' \<mapsto> ''b'', ''b'' \<mapsto> ''a''] ''a'' = None"
proof -
  have "varNameForType_while [''a'' \<mapsto> ''b'', ''b'' \<mapsto> ''a''] ''a'' = None"
    by (rule varNameForType_while_closed_set [where S = "{''a'', ''b''}"]) auto
  then show ?thesis by (simp add: varNameForType_def)
qed

text \<open>
  C1 (amended). \<open>varNameForType\<close> returns exactly when following alias edges from the input
  reaches, after finitely many steps, a name that is not a key of the alias map; it then
  computes the variable name from that first non-key name. There is no iteration cap and no
  cycle error.
\<close>

theorem varNameForType_returns_iff:
  "varNameForType d t = Some v \<longleftrightarrow>
     (\<exists>n r. alias_chain d n t = Some r \<and> d r = None \<and> v = varNameForType_name r)"
proof
  assume "varNameForType d t = Some v"
  then obtain r where r: "varNameForType_while d t = Some r" "v = varNameForType_name r"
    by (auto simp: varNameForType_def)
  from varNameForType_while_result [OF r(1)] r(2)
  show "\<exists>n r. alias_chain d n t = Some r \<and> d r = None \<and> v = varNameForType_name r"
    by blast
next
  assume "\<exists>n r. alias_chain d n t = Some r \<and> d r = None \<and> v = varNameForType_name r"
  then obtain n r where "alias_chain d n t = Some r" "d r = None" "v = varNameForType_name r"
    by blast
  then show "varNameForType d t = Some v"
    using varNameForType_while_chain [of d n t r] by (simp add: varNameForType_def)
qed

theorem varNameForType_returns_iff_witness:
  "varNameForType [''m.Alias'' \<mapsto> ''m.Real''] ''m.Alias'' = Some ''myReal''"
proof -
  have "alias_chain [''m.Alias'' \<mapsto> ''m.Real''] (Suc 0) ''m.Alias'' = Some ''m.Real''"
    by simp
  moreover have "[''m.Alias'' \<mapsto> ''m.Real''] ''m.Real'' = None" by simp
  moreover have "varNameForType_name ''m.Real'' = ''myReal''"
    by (simp add: varNameForType_name_def startswith_def py_rfind_char_def
        py_slice_from_def slice_bound_def upt_rec)
  ultimately show ?thesis
    using varNameForType_returns_iff
      [of "[''m.Alias'' \<mapsto> ''m.Real'']" "''m.Alias''" "''myReal''"]
    by metis
qed

subsection \<open>Allowed input types\<close>













subsection \<open>The signature parser\<close>

lemma find_first_None_iff: "find_first sub s = None \<longleftrightarrow> \<not> sublist sub s"
proof (induction s)
  case Nil
  then show ?case by simp
next
  case (Cons c cs)
  show ?case
  proof (cases sub)
    case Nil
    then show ?thesis by simp
  next
    case (Cons x xs)
    then show ?thesis using Cons.IH by (simp add: sublist_Cons_right)
  qed
qed

lemma find_first_colon:
  "\<not> sublist '': '' n \<Longrightarrow> find_first '': '' (n @ '': '' @ rest) = Some (length n)"
proof (induction n)
  case Nil
  then show ?case by simp
next
  case (Cons c cs)
  from Cons.prems have ns: "\<not> sublist '': '' cs" and np: "\<not> prefix '': '' (c # cs)"
    by (auto simp: sublist_Cons_right)
  have "\<not> prefix '': '' (c # cs @ '': '' @ rest)"
  proof (cases cs)
    case Nil
    then show ?thesis by simp
  next
    case (Cons y ys)
    with np show ?thesis by simp
  qed
  with Cons.IH [OF ns] show ?case by simp
qed

lemma py_find_colon:
  assumes "\<not> sublist '': '' n"
  shows "py_find (pre @ n @ '': '' @ rest) '': '' (int (length pre)) = int (length pre + length n)"
  using find_first_colon [OF assms, of rest] by (simp add: py_find_def Let_def)

lemma py_find_none:
  assumes "0 \<le> i" "i \<le> int (length s)" "\<not> sublist sub (drop (nat i) s)"
  shows "py_find s sub i = - 1"
  using assms by (simp add: py_find_def Let_def find_first_None_iff [symmetric])

lemma py_slice_nat: "py_slice s (int a) (int b) = take (b - a) (drop a s)"
  by (cases "a \<le> length s"; cases "b \<le> length s")
     (auto simp: py_slice_def slice_bound_def Let_def min_def)

lemma py_slice_mid:
  "py_slice (a @ b @ c) (int (length a)) (int (length a + length b)) = b"
  unfolding py_slice_nat by simp

lemma py_slice_from_nat: "py_slice_from s (int a) = drop a s"
  by (simp add: py_slice_from_def slice_bound_def min_def)

lemma findEndOfToken_token:
  assumes "token_closed ds st t" "rest = [] \<or> hd rest \<in> set ds"
    "CHR ''('' \<notin> set ds" "CHR ''['' \<notin> set ds"
  shows "findEndOfToken (a @ t @ rest) (length a) ds (rev st) = length a + length t"
  using assms(1)
proof (induction t arbitrary: a st)
  case Nil
  then have st: "st = []" by simp
  show ?case
  proof (cases rest)
    case Nil
    then show ?thesis by (simp add: findEndOfToken.simps)
  next
    case (Cons r rs)
    with assms(2) have "r \<in> set ds" by simp
    with assms(3,4) have "r \<noteq> CHR ''(''" "r \<noteq> CHR ''[''" by auto
    with Cons st \<open>r \<in> set ds\<close> show ?thesis
      by (subst findEndOfToken.simps) simp
  qed
next
  case (Cons c cs)
  have step: "a @ (c # cs) @ rest = (a @ [c]) @ cs @ rest" by simp
  have nth: "(a @ (c # cs) @ rest) ! length a = c" by simp
  have lt: "length a < length (a @ (c # cs) @ rest)" by simp
  consider (lp) "c = CHR ''(''" | (lb) "c = CHR ''[''"
    | (e) "c \<noteq> CHR ''(''" "c \<noteq> CHR ''[''" "st = []"
    | (m) closer st' where "c \<noteq> CHR ''(''" "c \<noteq> CHR ''[''" "st = closer # st'" "c = closer"
    | (n) closer st' where "c \<noteq> CHR ''(''" "c \<noteq> CHR ''[''" "st = closer # st'" "c \<noteq> closer"
    by (cases st) auto
  then show ?case
  proof cases
    case lp
    with Cons.prems have "token_closed ds (CHR '')'' # st) cs" by simp
    from Cons.IH [OF this, of "a @ [c]"] show ?thesis
      by (subst findEndOfToken.simps) (simp only: nth lt if_True lp, simp add: lp)
  next
    case lb
    with Cons.prems have "token_closed ds (CHR '']'' # st) cs" by simp
    from Cons.IH [OF this, of "a @ [c]"] show ?thesis
      by (subst findEndOfToken.simps) (simp only: nth lt if_True lb, simp add: lb)
  next
    case e
    with Cons.prems have "c \<notin> set ds" "token_closed ds [] cs" by simp_all
    from Cons.IH [OF this(2), of "a @ [c]"] e \<open>c \<notin> set ds\<close> show ?thesis
      by (subst findEndOfToken.simps) (simp only: nth lt if_True, simp)
  next
    case m
    with Cons.prems have "token_closed ds st' cs" by simp
    from Cons.IH [OF this, of "a @ [c]"] m show ?thesis
      by (subst findEndOfToken.simps) (simp only: nth lt if_True, simp)
  next
    case n
    with Cons.prems have "token_closed ds st cs" by simp
    from Cons.IH [OF this, of "a @ [c]"] n show ?thesis
      by (subst findEndOfToken.simps) (simp only: nth lt if_True, simp)
  qed
qed


lemma format_param_parts:
  "format_param (n, t, d) = n @ '': '' @ t @ (case d of None \<Rightarrow> [] | Some v \<Rightarrow> '' = '' @ v)"
  by (cases d) simp_all

lemma processSignature_body_param:
  assumes ok: "param_ok (n, t, d)"
    and suf: "sfx = [] \<or> (\<exists>more. sfx = '', '' @ more)"
  shows "processSignature_body (pre @ format_param (n, t, d) @ sfx) (int (length pre), ns, ts, dfs)
       = Continue (int (length pre + length (format_param (n, t, d)) + (if sfx = [] then 0 else 2)),
                   ns @ [n], ts @ [t], dfs @ [d])"
proof -
  define dpart where "dpart = (case d of None \<Rightarrow> [] | Some v \<Rightarrow> '' = '' @ v)"
  define args where "args = pre @ n @ '': '' @ t @ dpart @ sfx"
  define p1 where "p1 = length pre + length n"
  define p2 where "p2 = p1 + 2 + length t"
  define p3 where "p3 = p2 + length dpart"
  have fmt: "format_param (n, t, d) = n @ '': '' @ t @ dpart"
    by (simp add: format_param_parts dpart_def)
  have args_eq: "pre @ format_param (n, t, d) @ sfx = args"
    by (simp add: fmt args_def)
  have len: "length args = p3 + length sfx"
    by (simp add: args_def p1_def p2_def p3_def)
  from ok have nn: "\<not> sublist '': '' n"
    and tt: "token_closed [CHR '','', CHR '' ''] [] t"
    and dd: "\<And>v. d = Some v \<Longrightarrow> token_closed [CHR '',''] [] v"
    by (auto simp: param_ok_def)
  have find: "py_find args '': '' (int (length pre)) = int p1"
    using py_find_colon [OF nn, of pre "t @ dpart @ sfx"] by (simp add: args_def p1_def)
  have nm: "py_slice args (int (length pre)) (int p1) = n"
    unfolding py_slice_nat by (simp add: args_def p1_def)
  have rest1: "dpart @ sfx = [] \<or> hd (dpart @ sfx) \<in> set [CHR '','', CHR '' '']"
    using suf by (cases d) (auto simp: dpart_def)
  have e1: "findEndOfToken args (p1 + 2) [CHR '','', CHR '' ''] [] = p2"
  proof -
    define A where "A = pre @ n @ '': ''"
    have ar: "args = A @ t @ dpart @ sfx" by (simp add: A_def args_def)
    have la: "p1 + 2 = length A" by (simp add: A_def p1_def)
    have lt: "p2 = length A + length t" by (simp add: A_def p1_def p2_def)
    have "findEndOfToken (A @ t @ dpart @ sfx) (length A) [CHR '','', CHR '' ''] (rev [])
            = length A + length t"
      by (rule findEndOfToken_token [OF tt rest1]) simp_all
    then show ?thesis unfolding ar la lt by simp
  qed
  have ty: "py_slice args (int (p1 + 2)) (int p2) = t"
  proof -
    define A where "A = pre @ n @ '': ''"
    have ar: "args = A @ t @ dpart @ sfx" by (simp add: A_def args_def)
    have la: "p1 + 2 = length A" by (simp add: A_def p1_def)
    have lt: "p2 = length A + length t" by (simp add: A_def p1_def p2_def)
    show ?thesis unfolding ar la lt by (rule py_slice_mid)
  qed
  have at_p2: "drop p2 args = dpart @ sfx"
    by (simp add: args_def p1_def p2_def)
  have at_p3: "drop p3 args = sfx"
    by (simp add: args_def p1_def p2_def p3_def)
  have hd_check: "(int p2 + 2 < int (length args) \<and> py_slice args (int p2) (int (p2 + 3)) = '' = '')
      \<longleftrightarrow> d \<noteq> None"
  proof (cases d)
    case None
    then have dp: "dpart = []" by (simp add: dpart_def)
    from suf show ?thesis
    proof
      assume "sfx = []"
      with dp len have "length args = p2" by (simp add: p3_def)
      with None show ?thesis by simp
    next
      assume "\<exists>more. sfx = '', '' @ more"
      then obtain more where "sfx = '', '' @ more" by blast
      with dp at_p2 have "take 3 (drop p2 args) \<noteq> '' = ''" by simp
      with None show ?thesis unfolding py_slice_nat by simp
    qed
  next
    case (Some v)
    then have dp: "dpart = '' = '' @ v" by (simp add: dpart_def)
    with at_p2 have "take 3 (drop p2 args) = '' = ''" by simp
    moreover from dp len have "p2 + 2 < length args" by (simp add: p3_def)
    ultimately show ?thesis using Some unfolding py_slice_nat by simp
  qed
  have e2: "d = Some v \<Longrightarrow> findEndOfToken args (p2 + 3) [CHR '',''] [] = p3
              \<and> py_slice args (int (p2 + 3)) (int p3) = v" for v
  proof -
    assume d: "d = Some v"
    then have dp: "dpart = '' = '' @ v" by (simp add: dpart_def)
    have rest2: "sfx = [] \<or> hd sfx \<in> set [CHR '','']" using suf by auto
    have "findEndOfToken args (p2 + 3) [CHR '',''] [] = p3"
    proof -
      define A where "A = pre @ n @ '': '' @ t @ '' = ''"
      have ar: "args = A @ v @ sfx" by (simp add: A_def args_def dp)
      have la: "p2 + 3 = length A" by (simp add: A_def p1_def p2_def)
      have lv: "p3 = length A + length v" by (simp add: A_def p1_def p2_def p3_def dp)
      have "findEndOfToken (A @ v @ sfx) (length A) [CHR '',''] (rev []) = length A + length v"
        by (rule findEndOfToken_token [OF dd [OF d] rest2]) simp_all
      then show ?thesis unfolding ar la lv by simp
    qed
    moreover have "py_slice args (int (p2 + 3)) (int p3) = v"
    proof -
      define A where "A = pre @ n @ '': '' @ t @ '' = ''"
      have ar: "args = A @ v @ sfx" by (simp add: A_def args_def dp)
      have la: "p2 + 3 = length A" by (simp add: A_def p1_def p2_def)
      have lv: "p3 = length A + length v" by (simp add: A_def p1_def p2_def p3_def dp)
      show ?thesis unfolding ar la lv by (rule py_slice_mid)
    qed
    ultimately show ?thesis by simp
  qed
  have skip: "(int p3 + 1 < int (length args) \<and> py_slice args (int p3) (int (p3 + 2)) = '', '')
      \<longleftrightarrow> sfx \<noteq> []"
    using suf
  proof
    assume "sfx = []"
    with len show ?thesis by simp
  next
    assume "\<exists>more. sfx = '', '' @ more"
    then obtain more where m: "sfx = '', '' @ more" by blast
    with at_p3 have "take 2 (drop p3 args) = '', ''" by simp
    moreover from m len have "p3 + 1 < length args" by simp
    ultimately show ?thesis using m unfolding py_slice_nat by simp
  qed
  have p3_eq: "p3 = length pre + length (format_param (n, t, d))"
    by (simp add: fmt p1_def p2_def p3_def)
  have n1: "nat (int p1 + 2) = p1 + 2" and n2: "nat (int p2 + 3) = p2 + 3"
    by simp_all
  have c1: "int p1 + 2 = int (p1 + 2)" and c2: "int p2 + 3 = int (p2 + 3)"
    and c3: "int p3 + 2 = int (p3 + 2)"
    by simp_all
  have NE: "(int p1 = - 1) = False" by simp
  have E1x: "findEndOfToken args (nat (int p1 + 2)) [CHR '','', CHR '' ''] [] = p2"
    unfolding n1 by (rule e1)
  have TYx: "py_slice args (int p1 + 2) (int p2) = t"
    unfolding c1 by (rule ty)
  have HDx: "(int p2 + 2 < int (length args) \<and> py_slice args (int p2) (int p2 + 3) = '' = '')
      = (d \<noteq> None)"
    unfolding c2 by (rule hd_check)
  have SKx: "(int p3 + 1 < int (length args) \<and> py_slice args (int p3) (int p3 + 2) = '', '')
      = (sfx \<noteq> [])"
    unfolding c3 by (rule skip)
  have body: "processSignature_body args (int (length pre), ns, ts, dfs)
      = Continue (if sfx \<noteq> [] then int p3 + 2 else int p3, ns @ [n], ts @ [t], dfs @ [d])"
  proof (cases d)
    case None
    then have p: "p3 = p2" by (simp add: p3_def dpart_def)
    have nn: "(None \<noteq> (None :: string option)) = False" by simp
    show ?thesis
      unfolding None
      by (simp only: processSignature_body_def Let_def prod.case find NE nm E1x TYx
          HDx [unfolded None] SKx [unfolded p] nn p if_False simp_thms)
  next
    case (Some v)
    have E2x: "findEndOfToken args (nat (int p2 + 3)) [CHR '',''] [] = p3"
      unfolding n2 using e2 [OF Some] by (rule conjunct1)
    have DFx: "py_slice args (int p2 + 3) (int p3) = v"
      unfolding c2 using e2 [OF Some] by (rule conjunct2)
    have nn: "(Some v \<noteq> None) = True" by simp
    show ?thesis
      unfolding Some
      by (simp only: processSignature_body_def Let_def prod.case find NE nm E1x TYx
          HDx [unfolded Some] SKx E2x DFx nn if_False if_True simp_thms)
  qed
  show ?thesis
    unfolding args_eq body using p3_eq by (cases "sfx = []") simp_all
qed

lemma join_params_Cons:
  "join_params (p # ps) = p @ (if ps = [] then [] else '', '' @ join_params ps)"
  by (cases ps) simp_all

lemma format_param_nonempty: "format_param p \<noteq> []"
  by (cases p rule: format_param.cases) simp_all

lemma processSignature_while_params:
  assumes "\<forall>p \<in> set ps. param_ok p"
  shows "processSignature_while (pre @ join_params (map format_param ps))
           (int (length pre), ns, ts, dfs)
       = Some (Inr (ns @ map fst ps, ts @ map (fst \<circ> snd) ps, dfs @ map (snd \<circ> snd) ps))"
  using assms
proof (induction ps arbitrary: pre ns ts dfs)
  case Nil
  show ?case by (subst processSignature_while.simps) simp
next
  case (Cons p ps)
  obtain n t d where p: "p = (n, t, d)" by (cases p)
  define sfx where "sfx = (if ps = [] then [] else '', '' @ join_params (map format_param ps))"
  define pre' where "pre' = pre @ format_param p @ (if ps = [] then [] else '', '')"
  have args: "pre @ join_params (map format_param (p # ps)) = pre @ format_param p @ sfx"
    by (simp add: join_params_Cons sfx_def)
  have args': "pre @ format_param p @ sfx = pre' @ join_params (map format_param ps)"
    by (simp add: sfx_def pre'_def)
  have sfx_cases: "sfx = [] \<or> (\<exists>more. sfx = '', '' @ more)" by (simp add: sfx_def)
  have sfx_empty: "sfx = [] \<longleftrightarrow> ps = []" by (simp add: sfx_def)
  from Cons.prems have ok: "param_ok (n, t, d)" and oks: "\<forall>p \<in> set ps. param_ok p"
    by (simp_all add: p)
  have lt: "fst (int (length pre), ns, ts, dfs) < int (length (pre @ format_param p @ sfx))"
    using format_param_nonempty [of p] by (cases "format_param p") simp_all
  have len': "int (length pre + length (format_param (n, t, d)) + (if sfx = [] then 0 else 2))
      = int (length pre')"
    by (simp add: pre'_def sfx_empty p)
  have body: "processSignature_body (pre @ format_param p @ sfx) (int (length pre), ns, ts, dfs)
      = Continue (int (length pre'), ns @ [n], ts @ [t], dfs @ [d])"
    using processSignature_body_param [OF ok sfx_cases, of pre ns ts dfs]
    unfolding len' p .
  have "processSignature_while (pre @ format_param p @ sfx) (int (length pre), ns, ts, dfs)
      = processSignature_while (pre @ format_param p @ sfx)
          (int (length pre'), ns @ [n], ts @ [t], dfs @ [d])"
    by (subst processSignature_while.simps) (simp only: lt body if_True loop_exit.case)
  also have "\<dots> = Some (Inr ((ns @ [n]) @ map fst ps, (ts @ [t]) @ map (fst \<circ> snd) ps,
      (dfs @ [d]) @ map (snd \<circ> snd) ps))"
    unfolding args' by (rule Cons.IH [OF oks])
  finally show ?case unfolding args by (simp add: p)
qed

lemma split_last_arrow_sep:
  "ret \<noteq> [] \<Longrightarrow> split_last_arrow ret = None \<Longrightarrow> split_last_arrow ('') -> '' @ ret) = Some ([], ret)"
  by simp

lemma split_last_arrow_app:
  "ret \<noteq> [] \<Longrightarrow> split_last_arrow ret = None
     \<Longrightarrow> split_last_arrow (args @ '') -> '' @ ret) = Some (args, ret)"
proof (induction args)
  case Nil
  then show ?case using split_last_arrow_sep by simp
next
  case (Cons c cs)
  then have "split_last_arrow (cs @ '') -> '' @ ret) = Some (cs, ret)" by simp
  then show ?case by simp
qed

lemma not_word_paren: "\<not> is_word_char CHR ''(''"
  by (simp add: is_word_char_def)

lemma match_signature_format:
  assumes "f \<noteq> []" "\<forall>c \<in> set f. is_word_char c" "ret \<noteq> []" "split_last_arrow ret = None"
    "CHR 0x0A \<notin> set (f @ ''('' @ args @ '') -> '' @ ret)"
  shows "match_signature (f @ ''('' @ args @ '') -> '' @ ret) = Some (f, args, ret)"
proof -
  have tw: "takeWhile is_word_char (f @ ''('' @ args @ '') -> '' @ ret) = f"
    using assms(2) not_word_paren by (simp add: takeWhile_append2)
  have dw: "dropWhile is_word_char (f @ ''('' @ args @ '') -> '' @ ret)
      = CHR ''('' # args @ '') -> '' @ ret"
    using assms(2) not_word_paren by (simp add: dropWhile_append2)
  have nl: "CHR 0x0A \<notin> set (args @ '') -> '' @ ret)" using assms(5) by simp
  show ?thesis
    unfolding match_signature_def tw dw Let_def
    using assms(1) nl split_last_arrow_app [OF assms(3,4), of args]
    by simp
qed

text \<open>
  C4 (amended). Parsing is a left inverse of formatting on well-formed lines: for a non-empty
  word function name, parameters whose names contain no \<open>": "\<close>, whose types contain no comma
  or space outside brackets and close every bracket they open, whose defaults contain no
  comma outside brackets and close every bracket they open, and a non-empty return type
  that contains no \<open>") -> "\<close> followed by further text, on a line without a line break,
  \<open>processSignature\<close> returns exactly that name, those parameter names, types and defaults,
  and that return type.
\<close>

theorem processSignature_format:
  assumes "f \<noteq> []" "\<forall>c \<in> set f. is_word_char c" "\<forall>p \<in> set ps. param_ok p"
    "ret \<noteq> []" "split_last_arrow ret = None"
    "CHR 0x0A \<notin> set (format_signature f ps ret)"
  shows "processSignature (format_signature f ps ret)
       = Some (Inr (f, map fst ps, map (fst \<circ> snd) ps, map (snd \<circ> snd) ps, ret))"
proof -
  have m: "match_signature (format_signature f ps ret)
      = Some (f, join_params (map format_param ps), ret)"
    unfolding format_signature_def
    by (rule match_signature_format [OF assms(1,2,4,5) assms(6) [unfolded format_signature_def]])
  have w: "processSignature_while (join_params (map format_param ps)) (0, [], [], [])
      = Some (Inr (map fst ps, map (fst \<circ> snd) ps, map (snd \<circ> snd) ps))"
    using processSignature_while_params [OF assms(3), of "[]" "[]" "[]" "[]"] by simp
  show ?thesis by (simp add: processSignature_def m w)
qed

theorem processSignature_format_witness:
  "processSignature ''move(speed: float, heading: float = 0.0) -> None''
     = Some (Inr (''move'', [''speed'', ''heading''], [''float'', ''float''],
                  [None, Some ''0.0''], ''None''))"
proof -
  let ?ps = "[(''speed'', ''float'', None), (''heading'', ''float'', Some ''0.0'')]"
  have h1: "''move'' \<noteq> []" by simp
  have h2: "\<forall>c \<in> set ''move''. is_word_char c" by code_simp
  have h3: "\<forall>p \<in> set ?ps. param_ok p" by code_simp
  have h4: "''None'' \<noteq> []" by simp
  have h5: "split_last_arrow ''None'' = None" by code_simp
  have h6: "CHR 0x0A \<notin> set (format_signature ''move'' ?ps ''None'')" by code_simp
  have fmt: "format_signature ''move'' ?ps ''None''
      = ''move(speed: float, heading: float = 0.0) -> None''"
    by (simp add: format_signature_def)
  from processSignature_format [OF h1 h2 h3 h4 h5 h6] show ?thesis
    unfolding fmt by simp
qed

lemma processSignature_while_step:
  "fst st < int (length args) \<Longrightarrow> processSignature_body args st = Continue st'
     \<Longrightarrow> processSignature_while args st = processSignature_while args st'"
  by (subst processSignature_while.simps) simp

lemma processSignature_while_break:
  "fst st < int (length args) \<Longrightarrow> processSignature_body args st = Break r
     \<Longrightarrow> processSignature_while args st = Some (Inr r)"
  by (subst processSignature_while.simps) simp

lemma processSignature_while_exit:
  "\<not> fst st < int (length args) \<Longrightarrow> processSignature_while args st = Some (Inr (snd st))"
  by (subst processSignature_while.simps) simp

text \<open>
  C4 (as stated, refuted). The claim only asks that a type or default has no comma or space
  at bracket depth zero. The default \<open>'('\<close> (a quoted parenthesis) has no comma and no space
  at all, yet the scanner counts the parenthesis as opened and swallows the rest of the
  parameter list into the default of the first parameter.
\<close>

theorem processSignature_unclosed_default:
  "processSignature (format_signature ''f''
       [(''sep'', ''str'', Some ([CHR 0x27] @ ''('' @ [CHR 0x27])), (''n'', ''int'', Some ''0'')] ''None'')
     = Some (Inr (''f'', [''sep''], [''str''],
                  [Some ([CHR 0x27] @ ''('' @ [CHR 0x27] @ '', n: int = 0'')], ''None''))"
proof -
  let ?args = "''sep: str = '' @ [CHR 0x27] @ ''('' @ [CHR 0x27] @ '', n: int = 0''"
  let ?st = "(26, [''sep''], [''str''], [Some ([CHR 0x27] @ ''('' @ [CHR 0x27] @ '', n: int = 0'')])
    :: scan_state"
  have m: "match_signature (format_signature ''f''
       [(''sep'', ''str'', Some ([CHR 0x27] @ ''('' @ [CHR 0x27])), (''n'', ''int'', Some ''0'')] ''None'')
     = Some (''f'', ?args, ''None'')"
    by code_simp
  have b: "processSignature_body ?args (0, [], [], []) = Continue ?st"
    by code_simp
  have "processSignature_while ?args (0, [], [], []) = processSignature_while ?args ?st"
    by (rule processSignature_while_step [OF _ b]) simp
  also have "\<dots> = Some (Inr (snd ?st))"
    by (rule processSignature_while_exit) simp
  finally show ?thesis unfolding processSignature_def m by simp
qed

lemma processSignature_while_variadic:
  assumes "0 \<le> i" "drop (nat i) args = CHR ''*'' # rest" "\<not> sublist '': '' (CHR ''*'' # rest)"
  shows "processSignature_while args (i, ns, ts, dfs)
       = Some (Inr (ns @ [rest], ts @ [''tuple''], dfs @ [None]))"
proof -
  have lt: "nat i < length args" using assms(2) by (cases "nat i < length args") simp_all
  then have lt': "i < int (length args)" using assms(1) by simp
  have f: "py_find args '': '' i = - 1"
    using py_find_none [of i args "'': ''"] assms lt' by simp
  have "args ! nat i = hd (drop (nat i) args)" using lt by (simp add: hd_drop_conv_nth)
  then have star: "py_index args i = Inr CHR ''*''"
    using assms(1,2) lt' by (simp add: py_index_def Let_def)
  have "drop (Suc (nat i)) args = tl (drop (nat i) args)" by (simp add: drop_Suc tl_drop)
  then have "drop (nat (i + 1)) args = rest" using assms(1,2) by (simp add: nat_add_distrib)
  moreover have "nat (i + 1) \<le> length args" using assms(1) lt' by linarith
  ultimately have nm: "py_slice_from args (i + 1) = rest"
    using assms(1) by (simp add: py_slice_from_def slice_bound_def min_def)
  have "processSignature_body args (i, ns, ts, dfs)
      = Break (ns @ [rest], ts @ [''tuple''], dfs @ [None])"
    by (simp add: processSignature_body_def f star nm)
  then show ?thesis using lt' by (simp add: processSignature_while_break)
qed

lemma processSignature_body_no_raise:
  "0 \<le> fst st \<Longrightarrow> fst st < int (length args) \<Longrightarrow> processSignature_body args st \<noteq> Raise e"
  by (cases st) (simp add: processSignature_body_def py_index_def Let_def)

lemma processSignature_body_nonneg:
  "processSignature_body args st = Continue st' \<Longrightarrow> 0 \<le> fst st'"
  by (cases st) (auto simp: processSignature_body_def Let_def split: if_splits)

lemma processSignature_passes_while:
  "processSignature_passes args k st = Some st'
     \<Longrightarrow> processSignature_while args st = processSignature_while args st'"
proof (induction k arbitrary: st)
  case 0
  then show ?case by simp
next
  case (Suc k)
  from Suc.prems obtain st1 where lt: "fst st < int (length args)"
    and b: "processSignature_body args st = Continue st1"
    and r: "processSignature_passes args k st1 = Some st'"
    by (auto split: if_splits loop_exit.splits)
  from processSignature_while_step [OF lt b] Suc.IH [OF r] show ?case by simp
qed

lemma processSignature_passes_nonneg:
  "processSignature_passes args k st = Some st' \<Longrightarrow> 0 \<le> fst st \<Longrightarrow> 0 \<le> fst st'"
proof (induction k arbitrary: st)
  case 0
  then show ?case by simp
next
  case (Suc k)
  from Suc.prems(1) obtain st1 where b: "processSignature_body args st = Continue st1"
    and r: "processSignature_passes args k st1 = Some st'"
    by (auto split: if_splits loop_exit.splits)
  from processSignature_body_nonneg [OF b] Suc.IH [OF r] show ?case by simp
qed

text \<open>
  C9. Let the line match the pattern, and let the loop over its parameter text, after any
  number of complete passes from the start, stand at an index from which the text begins
  with \<open>*\<close> and contains no \<open>": "\<close>. Then \<open>processSignature\<close> returns; to the parameters
  recorded so far it adds exactly one, whose name is all the text after the \<open>*\<close>, whose
  type is \<open>tuple\<close> and whose default is absent, and nothing after it is parsed.
\<close>

theorem processSignature_variadic_parameter:
  assumes "match_signature line = Some (fn, args, ret)"
    and "processSignature_passes args k (0, [], [], []) = Some (i, ns, ts, dfs)"
    and "drop (nat i) args = CHR ''*'' # rest"
    and "\<not> sublist '': '' (CHR ''*'' # rest)"
  shows "processSignature line
       = Some (Inr (fn, ns @ [rest], ts @ [''tuple''], dfs @ [None], ret))"
proof -
  from processSignature_passes_nonneg [OF assms(2)] have "0 \<le> i" by simp
  from processSignature_while_variadic [OF this assms(3,4)]
  have "processSignature_while args (i, ns, ts, dfs)
      = Some (Inr (ns @ [rest], ts @ [''tuple''], dfs @ [None]))" .
  with processSignature_passes_while [OF assms(2)]
  have "processSignature_while args (0, [], [], [])
      = Some (Inr (ns @ [rest], ts @ [''tuple''], dfs @ [None]))" by simp
  with assms(1) show ?thesis by (simp add: processSignature_def)
qed

theorem processSignature_variadic_parameter_witness:
  "processSignature ''f(a: int, *args, **kwargs) -> None''
     = Some (Inr (''f'', [''a'', ''args, **kwargs''], [''int'', ''tuple''], [None, None], ''None''))"
proof -
  have h1: "match_signature ''f(a: int, *args, **kwargs) -> None''
      = Some (''f'', ''a: int, *args, **kwargs'', ''None'')" by code_simp
  have h2: "processSignature_passes ''a: int, *args, **kwargs'' 1 (0, [], [], [])
      = Some (8, [''a''], [''int''], [None])" by code_simp
  have h3: "drop (nat 8) ''a: int, *args, **kwargs'' = CHR ''*'' # ''args, **kwargs''" by simp
  have h4: "\<not> sublist '': '' (CHR ''*'' # ''args, **kwargs'')" by code_simp
  from processSignature_variadic_parameter [OF h1 h2 h3 h4] show ?thesis by simp
qed

lemma processSignature_while_no_raise:
  assumes "processSignature_while args st = Some r" "0 \<le> fst st"
  shows "\<forall>e. r \<noteq> Inl e"
proof -
  have "0 \<le> fst st \<longrightarrow> (\<forall>e. r \<noteq> Inl e)"
  proof (rule processSignature_while.raw_induct
      [where P = "\<lambda>args st r. 0 \<le> fst st \<longrightarrow> (\<forall>e. r \<noteq> Inl e)", OF _ assms(1)])
    fix f :: "string \<Rightarrow> scan_state \<Rightarrow> (error + string list \<times> string list \<times> string option list) option"
      and args st r
    assume IH: "\<And>args st r. f args st = Some r \<Longrightarrow> 0 \<le> fst st \<longrightarrow> (\<forall>e. r \<noteq> Inl e)"
      and step: "(if fst st < int (length args)
                  then case processSignature_body args st of
                         Continue st' \<Rightarrow> f args st'
                       | Break r \<Rightarrow> Some (Inr r)
                       | Raise e \<Rightarrow> Some (Inl e)
                  else Some (Inr (snd st))) = Some r"
    show "0 \<le> fst st \<longrightarrow> (\<forall>e. r \<noteq> Inl e)"
    proof
      assume nn: "0 \<le> fst st"
      show "\<forall>e. r \<noteq> Inl e"
      proof (cases "fst st < int (length args)")
        case False
        with step show ?thesis by auto
      next
        case True
        show ?thesis
        proof (cases "processSignature_body args st")
          case (Continue st')
          with step True have "f args st' = Some r" by simp
          moreover have "0 \<le> fst st'" using Continue by (rule processSignature_body_nonneg)
          ultimately show ?thesis using IH by blast
        next
          case (Break r')
          with step True show ?thesis by auto
        next
          case (Raise e)
          with processSignature_body_no_raise [OF nn True] show ?thesis by blast
        qed
      qed
    qed
  qed
  with assms(2) show ?thesis by blast
qed

text \<open>
  C2 (amended). \<open>processSignature\<close> fails exactly when the line does not match the pattern
  \<open>(\w+)\((.*)\) -> (.+)\<close> as a whole, and the failure is then the parse error; it never
  fails in any other way. The text between the parentheses is not checked against the
  grammar of parameters.
\<close>

theorem processSignature_fails_iff:
  "processSignature line = Some (Inl e) \<longleftrightarrow> e = ParseError \<and> \<not> isSignature line"
proof (cases "match_signature line")
  case None
  then show ?thesis by (auto simp: processSignature_def isSignature_def)
next
  case (Some m)
  obtain fn args ret where m: "m = (fn, args, ret)" by (cases m)
  have "processSignature_while args (0, [], [], []) \<noteq> Some (Inl e)"
    using processSignature_while_no_raise [of args "(0, [], [], [])"] by auto
  then have "processSignature line \<noteq> Some (Inl e)"
    using Some m by (auto simp: processSignature_def split: option.splits sum.splits)
  then show ?thesis using Some by (simp add: isSignature_def)
qed

theorem processSignature_fails_iff_witness:
  "processSignature ''not a signature'' = Some (Inl ParseError)"
proof -
  have "\<not> isSignature ''not a signature''" by code_simp
  then show ?thesis
    using processSignature_fails_iff [of "''not a signature''" ParseError] by simp
qed

lemma processSignature_while_stuck:
  assumes closed: "\<And>st. st \<in> S \<Longrightarrow> fst st < int (length args)
                     \<and> (\<exists>st' \<in> S. processSignature_body args st = Continue st')"
    and start: "st \<in> S"
  shows "processSignature_while args st = None"
proof (cases "processSignature_while args st")
  case None
  then show ?thesis .
next
  case (Some r)
  have "args = args \<longrightarrow> st \<notin> S"
  proof (rule processSignature_while.raw_induct
      [where P = "\<lambda>args' st r. args' = args \<longrightarrow> st \<notin> S", OF _ Some])
    fix f :: "string \<Rightarrow> scan_state \<Rightarrow> (error + string list \<times> string list \<times> string option list) option"
      and args' st r
    assume IH: "\<And>args' st r. f args' st = Some r \<Longrightarrow> args' = args \<longrightarrow> st \<notin> S"
      and step: "(if fst st < int (length args')
                  then case processSignature_body args' st of
                         Continue st' \<Rightarrow> f args' st'
                       | Break r \<Rightarrow> Some (Inr r)
                       | Raise e \<Rightarrow> Some (Inl e)
                  else Some (Inr (snd st))) = Some r"
    show "args' = args \<longrightarrow> st \<notin> S"
    proof (intro impI notI)
      assume eq: "args' = args" and "st \<in> S"
      with closed obtain st' where st': "fst st < int (length args)" "st' \<in> S"
        "processSignature_body args st = Continue st'" by blast
      with step eq have "f args' st' = Some r" by simp
      with IH eq have "st' \<notin> S" by blast
      with st' show False by simp
    qed
  qed
  with start show ?thesis by simp
qed

text \<open>
  C2 (as stated, refuted). The line \<open>f(x) -> None\<close> has a parameter text that is no list of
  \<open>name: type\<close> entries, and \<open>processSignature\<close> returns a signature for it (with an empty
  name and an empty type) instead of failing. On \<open>f(a b) -> None\<close> the loop never advances
  past position 1: the call neither returns nor fails.
\<close>

theorem processSignature_unchecked_params:
  "processSignature ''f(x) -> None'' = Some (Inr (''f'', [''''], [''''], [None], ''None''))
   \<and> processSignature ''f(a b) -> None'' = None"
proof
  have m: "match_signature ''f(x) -> None'' = Some (''f'', ''x'', ''None'')" by code_simp
  have b: "processSignature_body ''x'' (0, [], [], []) = Continue (1, [''''], [''''], [None])"
    by code_simp
  have "processSignature_while ''x'' (0, [], [], [])
      = processSignature_while ''x'' (1, [''''], [''''], [None])"
    by (rule processSignature_while_step [OF _ b]) simp
  also have "\<dots> = Some (Inr (snd (1 :: int, [''''], [''''], [None :: string option])))"
    by (rule processSignature_while_exit) simp
  finally show "processSignature ''f(x) -> None''
      = Some (Inr (''f'', [''''], [''''], [None], ''None''))"
    by (simp add: processSignature_def m)
next
  have m: "match_signature ''f(a b) -> None'' = Some (''f'', ''a b'', ''None'')" by code_simp
  have b0: "processSignature_body ''a b'' (0, [], [], []) = Continue (1, [''a ''], [''''], [None])"
    by code_simp
  have f1: "py_find ''a b'' '': '' 1 = - 1" by code_simp
  have x1: "py_index ''a b'' 1 = Inr CHR '' ''" by code_simp
  have e1: "findEndOfToken ''a b'' (nat (- 1 + 2)) [CHR '','', CHR '' ''] [] = 1" by code_simp
  have b1: "processSignature_body ''a b'' (1, ns, ts, dfs)
      = Continue (1, ns @ ['' ''], ts @ [''''], dfs @ [None])" for ns ts dfs
    unfolding processSignature_body_def Let_def prod.case f1 x1 e1
    by (simp add: py_slice_def slice_bound_def)
  have "processSignature_while ''a b'' (1, [''a ''], [''''], [None]) = None"
  proof (rule processSignature_while_stuck [where S = "{st. fst st = 1}"])
    fix st :: scan_state
    assume "st \<in> {st. fst st = 1}"
    then obtain ns ts dfs where "st = (1, ns, ts, dfs)" by (cases st) auto
    then show "fst st < int (length ''a b'')
        \<and> (\<exists>st' \<in> {st. fst st = 1}. processSignature_body ''a b'' st = Continue st')"
      using b1 [of ns ts dfs] by simp
  qed simp
  moreover have "processSignature_while ''a b'' (0, [], [], [])
      = processSignature_while ''a b'' (1, [''a ''], [''''], [None])"
    by (rule processSignature_while_step [OF _ b0]) simp
  ultimately show "processSignature ''f(a b) -> None'' = None"
    by (simp add: processSignature_def m)
qed

subsection \<open>Classes referenced by a signature\<close>

lemma getClassesFromSignatureLine_for_eq:
  "getClassesFromSignatureLine_for env ts acc =
     (acc @ map projr (takeWhile (\<lambda>r. \<not> isl r)
              (map (getClass env) (filter (\<lambda>t. \<not> isPrimitiveType t) ts))),
      if list_all (\<lambda>r. \<not> isl r) (map (getClass env) (filter (\<lambda>t. \<not> isPrimitiveType t) ts))
      then None
      else Some (projl (hd (dropWhile (\<lambda>r. \<not> isl r)
              (map (getClass env) (filter (\<lambda>t. \<not> isPrimitiveType t) ts))))))"
proof (induction ts arbitrary: acc)
  case Nil
  show ?case by simp
next
  case (Cons t ts)
  show ?case
  proof (cases "isPrimitiveType t")
    case True
    then show ?thesis by (simp add: Cons.IH)
  next
    case False
    show ?thesis
    proof (cases "getClass env t")
      case (Inl e)
      with False show ?thesis by simp
    next
      case (Inr c)
      with False show ?thesis by (simp add: Cons.IH)
    qed
  qed
qed

text \<open>
  C6 (amended). For every line that \<open>processSignature\<close> parses, \<open>getClassesFromSignatureLine\<close>
  returns, without raising, the classes of the non-primitive argument types in order up to
  (not including) the first one that \<open>getClass\<close> cannot resolve; only when every such
  argument type resolves is the class of the return type appended, provided the return type
  is not \<open>None\<close>, not primitive, and resolves. Whatever follows the first unresolvable name
  is dropped with it.
\<close>

theorem getClassesFromSignatureLine_prefix:
  assumes "processSignature line = Some (Inr (fn, arg_names, arg_types, dfs, ret))"
  shows "getClassesFromSignatureLine env line =
     Some (map projr (takeWhile (\<lambda>r. \<not> isl r)
                (map (getClass env) (filter (\<lambda>t. \<not> isPrimitiveType t) arg_types)))
           @ (if list_all (\<lambda>r. \<not> isl r)
                   (map (getClass env) (filter (\<lambda>t. \<not> isPrimitiveType t) arg_types))
                 \<and> ret \<noteq> ''None'' \<and> \<not> isPrimitiveType ret \<and> \<not> isl (getClass env ret)
              then [projr (getClass env ret)] else []))"
  using assms
  by (cases "getClass env ret")
     (auto simp: getClassesFromSignatureLine_def getClassesFromSignatureLine_for_eq
        isPrimitiveType_def)

lemma processSignature_parsed:
  assumes "match_signature line = Some (fn, args, ret)"
    and "processSignature_while args (0, [], [], []) = Some (Inr (ns, ts, dfs))"
  shows "processSignature line = Some (Inr (fn, ns, ts, dfs, ret))"
  using assms by (simp add: processSignature_def)

theorem getClassesFromSignatureLine_prefix_witness:
  "getClassesFromSignatureLine robot_env
     ''f(a: robot.Motor, b: int, c: robot.Gone, d: robot.Sensor) -> robot.Sensor'' = Some [11]"
proof -
  let ?ps = "[(''a'', ''robot.Motor'', None), (''b'', ''int'', None), (''c'', ''robot.Gone'', None),
              (''d'', ''robot.Sensor'', None)]"
  have m: "match_signature
      ''f(a: robot.Motor, b: int, c: robot.Gone, d: robot.Sensor) -> robot.Sensor''
      = Some (''f'', ''a: robot.Motor, b: int, c: robot.Gone, d: robot.Sensor'', ''robot.Sensor'')"
    by code_simp
  have ok: "\<forall>p \<in> set ?ps. param_ok p" by code_simp
  have w: "processSignature_while ''a: robot.Motor, b: int, c: robot.Gone, d: robot.Sensor''
      (0, [], [], [])
      = Some (Inr ([''a'', ''b'', ''c'', ''d''],
                   [''robot.Motor'', ''int'', ''robot.Gone'', ''robot.Sensor''],
                   [None, None, None, None]))"
    using processSignature_while_params [OF ok, of "[]" "[]" "[]" "[]"] by simp
  have c: "map (getClass robot_env)
      (filter (\<lambda>t. \<not> isPrimitiveType t) [''robot.Motor'', ''int'', ''robot.Gone'', ''robot.Sensor''])
      = [Inr 11, Inl AttributeError, Inr 12]"
    by code_simp
  from getClassesFromSignatureLine_prefix [OF processSignature_parsed [OF m w], of robot_env]
  show ?thesis unfolding c by simp
qed

text \<open>
  C6 (as stated, refuted). The claim says an unresolvable type name is dropped by itself and
  every other resolvable name, also later ones and the return type, is still included. In
  \<open>f(a: robot.Gone, b: robot.Motor) -> robot.Sensor\<close> the first argument type does not
  resolve, the other two names do, and the result is empty.
\<close>

theorem getClassesFromSignatureLine_drops_later_types:
  "getClassesFromSignatureLine robot_env ''f(a: robot.Gone, b: robot.Motor) -> robot.Sensor''
     = Some []
   \<and> getClass robot_env ''robot.Motor'' = Inr 11
   \<and> getClass robot_env ''robot.Sensor'' = Inr 12"
proof -
  let ?ps = "[(''a'', ''robot.Gone'', None), (''b'', ''robot.Motor'', None)]"
  have m: "match_signature ''f(a: robot.Gone, b: robot.Motor) -> robot.Sensor''
      = Some (''f'', ''a: robot.Gone, b: robot.Motor'', ''robot.Sensor'')"
    by code_simp
  have ok: "\<forall>p \<in> set ?ps. param_ok p" by code_simp
  have w: "processSignature_while ''a: robot.Gone, b: robot.Motor'' (0, [], [], [])
      = Some (Inr ([''a'', ''b''], [''robot.Gone'', ''robot.Motor''], [None, None]))"
    using processSignature_while_params [OF ok, of "[]" "[]" "[]" "[]"] by simp
  have l: "getClassesFromSignatureLine_for robot_env [''robot.Gone'', ''robot.Motor''] []
      = ([], Some AttributeError)"
    by code_simp
  have "getClassesFromSignatureLine robot_env
      ''f(a: robot.Gone, b: robot.Motor) -> robot.Sensor'' = Some []"
    unfolding getClassesFromSignatureLine_def processSignature_parsed [OF m w]
    by (simp add: l del: getClassesFromSignatureLine_for.simps)
  moreover have "getClass robot_env ''robot.Motor'' = Inr 11" by code_simp
  moreover have "getClass robot_env ''robot.Sensor'' = Inr 12" by code_simp
  ultimately show ?thesis by simp
qed

subsection \<open>Documentation of routines\<close>

lemma find_first_at:
  assumes "sub \<noteq> []" "\<not> sublist sub (xs @ butlast sub)"
  shows "find_first sub (xs @ sub @ ys) = Some (length xs)"
  using assms(2)
proof (induction xs)
  case Nil
  from assms(1) obtain c cs where "sub @ ys = c # cs" by (cases sub) auto
  moreover have "prefix sub (sub @ ys)" by simp
  ultimately show ?case by simp
next
  case (Cons x xs)
  have np: "\<not> prefix sub ((x # xs) @ sub @ ys)"
  proof
    assume "prefix sub ((x # xs) @ sub @ ys)"
    then have "take (length sub) ((x # xs) @ sub @ ys) = sub"
      by (metis append_eq_conv_conj prefixE)
    moreover have "take j (sub @ ys) = take j (butlast sub)" if "j \<le> length sub - 1" for j
      using that by (simp add: butlast_conv_take min_def)
    then have "take (length sub) ((x # xs) @ sub @ ys)
        = take (length sub) ((x # xs) @ butlast sub)"
      by (simp del: append_Cons)
    ultimately have "prefix sub ((x # xs) @ butlast sub)"
      by (metis take_is_prefix)
    with Cons.prems show False by blast
  qed
  have "\<not> sublist sub (xs @ butlast sub)"
    using Cons.prems by (auto simp: sublist_Cons_right)
  from Cons.IH [OF this] np show ?case by simp
qed

lemma py_find_at:
  assumes "sub \<noteq> []" "i \<le> length A" "\<not> sublist sub (drop i A @ butlast sub)"
  shows "py_find (A @ sub @ B) sub (int i) = int (length A)"
proof -
  have "find_first sub (drop i A @ sub @ B) = Some (length (drop i A))"
    by (rule find_first_at [OF assms(1,3)])
  with assms(2) show ?thesis by (simp add: py_find_def Let_def)
qed

lemma section_marker_nonempty: "section_marker n \<noteq> []"
  by (simp add: section_marker_def)

lemma processFunctionDoc_while_found:
  assumes "doc = A @ section_marker n @ B" "i \<le> length A"
    "\<not> sublist (section_marker n) (drop i A @ butlast (section_marker n))"
  shows "processFunctionDoc_while doc n (int i) si ce
       = processFunctionDoc_while doc (n + 1) (int (length A + length (section_marker n)))
           (si @ [int (length A + length (section_marker n))])
           (if n > 1 then ce @ [int (length A)] else ce)"
proof -
  have f: "py_find doc (section_marker n) (int i) = int (length A)"
    unfolding assms(1) by (rule py_find_at [OF section_marker_nonempty assms(2,3)])
  have ne: "(int (length A) = - 1) = False" by simp
  have c: "int (length A) + int (length (section_marker n))
      = int (length A + length (section_marker n))" by simp
  show ?thesis
    by (subst processFunctionDoc_while.simps) (simp only: f ne if_False c)
qed

lemma processFunctionDoc_while_not_found:
  assumes "i \<le> length doc" "\<not> sublist (section_marker n) (drop i doc)"
  shows "processFunctionDoc_while doc n (int i) si ce = (si, ce @ [int (length doc)])"
proof -
  have "py_find doc (section_marker n) (int i) = - 1"
    using py_find_none [of "int i" doc "section_marker n"] assms by simp
  then show ?thesis by (subst processFunctionDoc_while.simps) simp
qed

lemma find_first_char:
  "c \<in> set s \<Longrightarrow> find_first [c] s = Some (length (takeWhile (\<lambda>x. x \<noteq> c) s))"
  by (induction s) auto

lemma processFunctionDoc_for_section:
  assumes "doc = A @ sec @ B" "CHR 0x0A \<in> set sec \<or> (\<exists>B'. B = CHR 0x0A # B')"
  shows "processFunctionDoc_for doc (int (length A) # si) (int (length A + length sec) # ce)
           sigs coms
       = processFunctionDoc_for doc si ce (sigs @ [first_line sec])
           (coms @ [py_strip (after_first_line sec)])"
proof -
  let ?P = "\<lambda>c. c \<noteq> CHR 0x0A"
  define k where "k = length (takeWhile ?P sec)"
  have tw: "takeWhile ?P (sec @ B) = takeWhile ?P sec"
    using assms(2)
  proof
    assume "CHR 0x0A \<in> set sec"
    then show ?thesis by (intro takeWhile_append1 [where x = "CHR 0x0A"]) simp_all
  next
    assume "\<exists>B'. B = CHR 0x0A # B'"
    then obtain B' where B: "B = CHR 0x0A # B'" by blast
    show ?thesis
    proof (cases "CHR 0x0A \<in> set sec")
      case True
      then show ?thesis by (intro takeWhile_append1 [where x = "CHR 0x0A"]) simp_all
    next
      case False
      then have "takeWhile ?P (sec @ B) = sec @ takeWhile ?P B"
        by (intro takeWhile_append2) auto
      moreover from False have "\<forall>x \<in> set sec. ?P x" by auto
      then have "takeWhile ?P sec = sec" by (simp only: takeWhile_eq_all_conv)
      moreover have "takeWhile ?P B = []" using B by simp
      ultimately show ?thesis by (simp only: append_Nil2)
    qed
  qed
  have mem: "CHR 0x0A \<in> set (sec @ B)" using assms(2) by auto
  have kle: "k \<le> length sec" unfolding k_def by (rule length_takeWhile_le)
  have ff: "find_first [CHR 0x0A] (sec @ B) = Some k"
    using find_first_char [OF mem] tw by (simp add: k_def)
  have eol: "py_find doc [CHR 0x0A] (int (length A)) = int (length A + k)"
    unfolding assms(1) using ff by (simp add: py_find_def Let_def)
  have sg: "py_slice doc (int (length A)) (int (length A + k)) = first_line sec"
  proof -
    have "take k (sec @ B) = take k sec" using kle by simp
    also have "\<dots> = takeWhile ?P sec" unfolding k_def by (rule takeWhile_eq_take [symmetric])
    finally show ?thesis unfolding py_slice_nat assms(1) by (simp add: first_line_def)
  qed
  have c1: "int (length A + k) + 1 = int (length A + k + 1)" by simp
  have cm: "py_slice doc (int (length A + k) + 1) (int (length A + length sec))
      = after_first_line sec"
  proof -
    have "take (length sec - (k + 1)) (drop (k + 1) (sec @ B)) = drop (k + 1) sec"
      using kle by (cases "k + 1 \<le> length sec") simp_all
    moreover have "drop (k + 1) sec = drop 1 (dropWhile ?P sec)"
      unfolding k_def by (subst dropWhile_eq_drop) simp
    moreover have "length A + length sec - (length A + k + 1) = length sec - (k + 1)" by simp
    moreover have "drop (length A + k + 1) (A @ sec @ B) = drop (k + 1) (sec @ B)" by simp
    ultimately show ?thesis
      unfolding c1 py_slice_nat assms(1) after_first_line_def by (simp only:)
  qed
  show ?thesis
    by (simp only: processFunctionDoc_for.simps Let_def eol sg cm)
qed

lemma processFunctionDoc_three_sections:
  assumes doc: "doc = pre @ section_marker 1 @ sec1 @ section_marker 2 @ sec2
                      @ section_marker 3 @ sec3"
    and m1: "\<not> sublist (section_marker 1) (pre @ butlast (section_marker 1))"
    and m2: "\<not> sublist (section_marker 2) (sec1 @ butlast (section_marker 2))"
    and m3: "\<not> sublist (section_marker 3) (sec2 @ butlast (section_marker 3))"
    and m4: "\<not> sublist (section_marker 4) sec3"
    and nl: "CHR 0x0A \<in> set sec3"
  shows "(case processFunctionDoc_while doc 1 0 [] [] of
            (signatureIndices, commentEndIndices) \<Rightarrow>
              processFunctionDoc_for doc signatureIndices commentEndIndices [] [])
       = Inr ([first_line sec1, first_line sec2, first_line sec3],
              [py_strip (after_first_line sec1), py_strip (after_first_line sec2),
               py_strip (after_first_line sec3)])"
proof -
  define A1 where "A1 = pre @ section_marker 1"
  define A2 where "A2 = A1 @ sec1 @ section_marker 2"
  define A3 where "A3 = A2 @ sec2 @ section_marker 3"
  have d1: "doc = pre @ section_marker 1 @ (sec1 @ section_marker 2 @ sec2 @ section_marker 3 @ sec3)"
    by (simp add: doc)
  have d2: "doc = (A1 @ sec1) @ section_marker 2 @ (sec2 @ section_marker 3 @ sec3)"
    by (simp add: doc A1_def)
  have d3: "doc = (A2 @ sec2) @ section_marker 3 @ sec3"
    by (simp add: doc A1_def A2_def)
  have d4: "doc = A3 @ sec3" by (simp add: doc A1_def A2_def A3_def)
  have l1: "length pre + length (section_marker 1) = length A1" by (simp add: A1_def)
  have l2: "length (A1 @ sec1) + length (section_marker 2) = length A2" by (simp add: A2_def)
  have l3: "length (A2 @ sec2) + length (section_marker 3) = length A3" by (simp add: A3_def)
  have a: "(1::nat) + 1 = 2" "(2::nat) + 1 = 3" "(3::nat) + 1 = 4" by simp_all
  have b: "((1::nat) < 1) = False" "((1::nat) < 2) = True" "((1::nat) < 3) = True" by simp_all
  have m1': "\<not> sublist (section_marker 1) (drop 0 pre @ butlast (section_marker 1))"
    using m1 by simp
  have m2': "\<not> sublist (section_marker 2)
      (drop (length A1) (A1 @ sec1) @ butlast (section_marker 2))"
    using m2 by simp
  have m3': "\<not> sublist (section_marker 3)
      (drop (length A2) (A2 @ sec2) @ butlast (section_marker 3))"
    using m3 by simp
  have le1: "0 \<le> length pre" and le2: "length A1 \<le> length (A1 @ sec1)"
    and le3: "length A2 \<le> length (A2 @ sec2)" by simp_all
  note w1 = processFunctionDoc_while_found [OF d1 le1 m1', of "[]" "[]",
      unfolded a b l1 if_False append_Nil of_nat_0]
  note w2 = processFunctionDoc_while_found [OF d2 le2 m2', of "[int (length A1)]" "[]",
      unfolded a b l2 if_True append_Nil append_Cons]
  note w3 = processFunctionDoc_while_found [OF d3 le3 m3',
      of "[int (length A1), int (length A2)]" "[int (length (A1 @ sec1))]",
      unfolded a b l3 if_True append_Nil append_Cons]
  have m4': "\<not> sublist (section_marker 4) (drop (length A3) doc)"
    using m4 by (simp add: d4)
  have le4: "length A3 \<le> length doc" by (simp add: d4)
  note w4 = processFunctionDoc_while_not_found [OF le4 m4',
      of "[int (length A1), int (length A2), int (length A3)]"
         "[int (length (A1 @ sec1)), int (length (A2 @ sec2))]",
      unfolded append_Nil append_Cons]
  have w: "processFunctionDoc_while doc 1 0 [] []
      = ([int (length A1), int (length A2), int (length A3)],
         [int (length (A1 @ sec1)), int (length (A2 @ sec2)), int (length doc)])"
    by (simp only: w1 w2 w3 w4)
  have s1: "doc = A1 @ sec1 @ (section_marker 2 @ sec2 @ section_marker 3 @ sec3)"
    by (simp add: doc A1_def)
  have s2: "doc = A2 @ sec2 @ (section_marker 3 @ sec3)"
    by (simp add: doc A1_def A2_def)
  have s3: "doc = A3 @ sec3 @ []" by (simp add: d4)
  have b1: "\<exists>B'. section_marker 2 @ sec2 @ section_marker 3 @ sec3 = CHR 0x0A # B'"
    by (simp add: section_marker_def)
  have b2: "\<exists>B'. section_marker 3 @ sec3 = CHR 0x0A # B'"
    by (simp add: section_marker_def)
  have e1: "int (length (A1 @ sec1)) = int (length A1 + length sec1)"
    and e2: "int (length (A2 @ sec2)) = int (length A2 + length sec2)"
    and e3: "int (length doc) = int (length A3 + length sec3)"
    by (simp_all add: d4)
  note f1 = processFunctionDoc_for_section [OF s1 disjI2 [OF b1]]
  note f2 = processFunctionDoc_for_section [OF s2 disjI2 [OF b2]]
  note f3 = processFunctionDoc_for_section [OF s3 disjI1 [OF nl]]
  show ?thesis
    unfolding w prod.case e1 e2 e3 f1 f2 f3
    by (simp only: processFunctionDoc_for.simps append_Nil append_Cons)
qed

text \<open>
  C5 (amended). For an overloaded routine whose normalised documentation consists of a
  preamble, the marker of section 1, section 1, the marker of section 2, section 2, the
  marker of section 3 and section 3, where each marker does not occur earlier than shown,
  section 3 contains no marker of section 4 and the first line of section 3 is ended by a
  line break, \<open>processFunctionDoc\<close> returns exactly three signatures, in the order 1, 2, 3:
  signature \<open>i\<close> is the first line of section \<open>i\<close>, and comment \<open>i\<close> is the text after that
  line up to the next marker (or the end of the document), with surrounding whitespace
  stripped. Later sections such as a section 5 stay inside the comment of section 3.
\<close>

theorem processFunctionDoc_overloaded_three:
  assumes "isOverloaded env obj" "dunder_doc (heap env obj) = Some d"
    and "sub_address d = pre @ section_marker 1 @ sec1 @ section_marker 2 @ sec2
                         @ section_marker 3 @ sec3"
    and "\<not> sublist (section_marker 1) (pre @ butlast (section_marker 1))"
    and "\<not> sublist (section_marker 2) (sec1 @ butlast (section_marker 2))"
    and "\<not> sublist (section_marker 3) (sec2 @ butlast (section_marker 3))"
    and "\<not> sublist (section_marker 4) sec3"
    and "CHR 0x0A \<in> set sec3"
  shows "processFunctionDoc env obj
       = Inr ([first_line sec1, first_line sec2, first_line sec3],
              [py_strip (after_first_line sec1), py_strip (after_first_line sec2),
               py_strip (after_first_line sec3)])"
proof -
  from assms(1) have r: "isroutine env obj" by (simp add: isOverloaded_def)
  show ?thesis
    unfolding processFunctionDoc_def Let_def
    using r assms(1,2) processFunctionDoc_three_sections [OF assms(3-8)]
    by simp
qed

theorem processFunctionDoc_overloaded_three_witness:
  "processFunctionDoc (doc_env ''f'' overloaded_doc) 0
     = Inr ([''f(a: int) -> None'', ''f(a: str) -> None'', ''f() -> int''],
            [''First.'', ''Second.'',
             ''Third.\<newline>\<newline>5. f(x: int) -> int\<newline>\<newline>Not returned.''])"
proof -
  let ?pre = "''f(*args, **kwargs)\<newline>Overloaded function.''"
  let ?sec1 = "''f(a: int) -> None\<newline>\<newline>First.''"
  let ?sec2 = "''f(a: str) -> None\<newline>\<newline>Second.''"
  let ?sec3 = "''f() -> int\<newline>\<newline>Third.\<newline>\<newline>5. f(x: int) -> int\<newline>\<newline>Not returned.\<newline>''"
  have h1: "isOverloaded (doc_env ''f'' overloaded_doc) 0" by code_simp
  have h2: "dunder_doc (heap (doc_env ''f'' overloaded_doc) 0) = Some overloaded_doc"
    by (simp add: doc_env_def routine_obj_def)
  have h3: "sub_address overloaded_doc
      = ?pre @ section_marker 1 @ ?sec1 @ section_marker 2 @ ?sec2 @ section_marker 3 @ ?sec3"
    by code_simp
  have h4: "\<not> sublist (section_marker 1) (?pre @ butlast (section_marker 1))" by code_simp
  have h5: "\<not> sublist (section_marker 2) (?sec1 @ butlast (section_marker 2))" by code_simp
  have h6: "\<not> sublist (section_marker 3) (?sec2 @ butlast (section_marker 3))" by code_simp
  have h7: "\<not> sublist (section_marker 4) ?sec3" by code_simp
  have h8: "CHR 0x0A \<in> set ?sec3" by simp
  have r: "first_line ?sec1 = ''f(a: int) -> None''" "first_line ?sec2 = ''f(a: str) -> None''"
    "first_line ?sec3 = ''f() -> int''"
    "py_strip (after_first_line ?sec1) = ''First.''"
    "py_strip (after_first_line ?sec2) = ''Second.''"
    "py_strip (after_first_line ?sec3)
       = ''Third.\<newline>\<newline>5. f(x: int) -> int\<newline>\<newline>Not returned.''"
    by code_simp+
  from processFunctionDoc_overloaded_three [OF h1 h2 h3 h4 h5 h6 h7 h8]
  show ?thesis unfolding r .
qed

text \<open>
  C5 (as stated, refuted). The comment is not the raw text between the signature line and
  the next marker: that text is \<open>"\nFirst."\<close> for section 1, and the comment returned is
  \<open>"First."\<close>. When the last section's first line is not ended by a line break,
  \<open>doc.find("\n", index)\<close> is \<open>-1\<close>: the last signature loses its final character and the
  last comment is the whole document.
\<close>

theorem processFunctionDoc_comment_not_raw_text:
  "processFunctionDoc (doc_env ''f'' overloaded_doc) 0
     = Inr ([''f(a: int) -> None'', ''f(a: str) -> None'', ''f() -> int''],
            [''First.'', ''Second.'',
             ''Third.\<newline>\<newline>5. f(x: int) -> int\<newline>\<newline>Not returned.''])
   \<and> after_first_line ''f(a: int) -> None\<newline>\<newline>First.'' = ''\<newline>First.''
   \<and> processFunctionDoc (doc_env ''f'' unterminated_doc) 0
     = Inr ([''f(a: int) -> None'', ''f(a: str) -> None'', ''f() -> in''],
            ['''', '''', unterminated_doc])"
  by code_simp

lemma address_at_append: "address_at b \<Longrightarrow> address_at (b @ c)"
  by (auto simp: address_at_def)

lemma has_address_iff: "has_address s \<longleftrightarrow> (\<exists>a b. s = a @ b \<and> address_at b)"
proof (induction s)
  case Nil
  show ?case by (simp add: address_at_def)
next
  case (Cons c cs)
  show ?case
  proof
    assume "has_address (c # cs)"
    then consider "address_at (c # cs)" | "has_address cs" by auto
    then show "\<exists>a b. c # cs = a @ b \<and> address_at b"
    proof cases
      case 1
      then have "c # cs = [] @ (c # cs) \<and> address_at (c # cs)" by simp
      then show ?thesis by blast
    next
      case 2
      with Cons.IH obtain a b where "cs = a @ b" "address_at b" by blast
      then have "c # cs = (c # a) @ b \<and> address_at b" by simp
      then show ?thesis by blast
    qed
  next
    assume "\<exists>a b. c # cs = a @ b \<and> address_at b"
    then obtain a b where ab: "c # cs = a @ b" "address_at b" by blast
    show "has_address (c # cs)"
    proof (cases a)
      case Nil
      with ab have "address_at (c # cs)" by simp
      then show ?thesis by simp
    next
      case (Cons x a')
      with ab have "cs = a' @ b" by simp
      with ab(2) Cons.IH have "has_address cs" by blast
      then show ?thesis by simp
    qed
  qed
qed

lemma has_address_sublist:
  assumes "sublist xs ys" "has_address xs"
  shows "has_address ys"
proof -
  from assms(1) obtain p q where ys: "ys = p @ xs @ q" by (auto simp: sublist_def)
  from assms(2) obtain a b where xs: "xs = a @ b" "address_at b"
    by (auto simp: has_address_iff)
  have "ys = (p @ a) @ (b @ q)" by (simp add: ys xs)
  moreover have "address_at (b @ q)" using xs(2) by (rule address_at_append)
  ultimately show ?thesis unfolding has_address_iff by blast
qed

lemma sublist_py_slice: "sublist (py_slice s a b) s"
proof -
  have "sublist (take n (drop m s)) (drop m s)" for n m by simp
  then show ?thesis
    unfolding py_slice_def Let_def by (meson sublist_drop sublist_order.order_trans)
qed

lemma sublist_py_slice_from: "sublist (py_slice_from s a) s"
  by (simp add: py_slice_from_def)

lemma sublist_py_slice_to: "sublist (py_slice_to s b) s"
  by (simp add: py_slice_to_def)

lemma sublist_py_strip: "sublist (py_strip s) s"
proof -
  have "suffix (dropWhile is_space (rev (dropWhile is_space s))) (rev (dropWhile is_space s))"
    by (rule suffix_dropWhile)
  then have "prefix (py_strip s) (dropWhile is_space s)"
    unfolding py_strip_def by (metis rev_rev_ident suffix_to_prefix)
  then have "sublist (py_strip s) (dropWhile is_space s)" by (rule prefix_imp_sublist)
  moreover have "sublist (dropWhile is_space s) s" by simp
  ultimately show ?thesis by (rule sublist_order.order_trans)
qed

lemma sublist_strip_slice: "sublist (py_strip (py_slice s a b)) s"
  using sublist_py_strip sublist_py_slice by (rule sublist_order.order_trans)

lemma processFunctionDoc_for_sublist:
  assumes "processFunctionDoc_for doc si ce sigs coms = Inr (signatures, comments)"
    and "\<forall>s \<in> set sigs \<union> set coms. sublist s doc"
  shows "\<forall>s \<in> set signatures \<union> set comments. sublist s doc"
  using assms
proof (induction doc si ce sigs coms rule: processFunctionDoc_for.induct)
  case (1 doc commentEndIndices signatures comments)
  then show ?case by simp
next
  case (2 doc index signatureIndices signatures comments)
  then show ?case by simp
next
  case (3 doc index signatureIndices commentEnd commentEndIndices sigs coms)
  let ?eol = "py_find doc [CHR 0x0A] index"
  have "\<forall>s \<in> set (sigs @ [py_slice doc index ?eol])
          \<union> set (coms @ [py_strip (py_slice doc (?eol + 1) commentEnd)]). sublist s doc"
    using "3.prems"(2) sublist_py_slice sublist_strip_slice by auto
  moreover have "processFunctionDoc_for doc signatureIndices commentEndIndices
      (sigs @ [py_slice doc index ?eol])
      (coms @ [py_strip (py_slice doc (?eol + 1) commentEnd)]) = Inr (signatures, comments)"
    using "3.prems"(1) by (simp add: Let_def)
  ultimately show ?case using "3.IH" [OF refl] by blast
qed

lemma processFunctionDoc_sublist:
  assumes "processFunctionDoc env obj = Inr (signatures, comments)"
    and "dunder_doc (heap env obj) = Some d"
  shows "\<forall>s \<in> set signatures \<union> set comments. sublist s (sub_address d)"
proof (cases "isOverloaded env obj")
  case False
  with assms have "set signatures \<union> set comments
      \<subseteq> {py_slice_to (sub_address d) (py_find (sub_address d) [CHR 0x0A] 0),
          py_strip (py_slice_from (sub_address d) (py_find (sub_address d) [CHR 0x0A] 0 + 1))}"
    by (auto simp: processFunctionDoc_def Let_def split: if_splits)
  moreover have "sublist (py_strip (py_slice_from (sub_address d) a)) (sub_address d)" for a
    using sublist_py_strip sublist_py_slice_from by (rule sublist_order.order_trans)
  ultimately show ?thesis using sublist_py_slice_to by blast
next
  case True
  obtain si ce where w: "processFunctionDoc_while (sub_address d) 1 0 [] [] = (si, ce)"
    by (cases "processFunctionDoc_while (sub_address d) 1 0 [] []")
  with assms True have "processFunctionDoc_for (sub_address d) si ce [] []
      = Inr (signatures, comments)"
    by (auto simp: processFunctionDoc_def Let_def split: if_splits)
  from processFunctionDoc_for_sublist [OF this] show ?thesis by simp
qed

lemma prefix_take_iff: "prefix xs ys \<longleftrightarrow> take (length xs) ys = xs"
  by (metis append_eq_conv_conj prefix_def take_is_prefix)

lemma address_at_window:
  "address_at s = (length (take 22 s) = 22 \<and> take 13 (take 22 s) = '' object at 0x''
     \<and> list_all is_hex_digit (drop 13 (take 22 s)))"
proof -
  define p where "p = '' object at 0x''"
  have lp: "length p = 13" by (simp add: p_def)
  have "prefix p s = (take 13 s = p)" using prefix_take_iff [of p s] lp by simp
  moreover have "drop 13 (take 22 s) = take 9 (drop 13 s)" by (simp add: drop_take)
  moreover have "take 13 (take 22 s) = take 13 s" by simp
  moreover have "(length (take 22 s) = 22) = (22 \<le> length s)" by auto
  ultimately show ?thesis unfolding address_at_def p_def by (simp only:) blast
qed

lemma address_at_take_eq:
  "take 22 s = take 22 s' \<Longrightarrow> address_at s = address_at s'"
  by (simp add: address_at_window)

lemma address_at_pattern_char:
  assumes "address_at s" "k < 22"
  shows "pattern_char (s ! k)"
proof -
  define p where "p = '' object at 0x''"
  have lp: "length p = 13" by (simp add: p_def)
  from assms(1) obtain r where s: "s = p @ r" and len: "22 \<le> length s"
    and hex: "list_all is_hex_digit (take 9 r)"
    by (auto simp: address_at_def prefix_def p_def)
  show ?thesis
  proof (cases "k < 13")
    case True
    with lp have "s ! k = p ! k" unfolding s by (simp add: nth_append)
    moreover from True lp have "p ! k \<in> set p" by (intro nth_mem) simp
    ultimately show ?thesis by (simp add: pattern_char_def p_def)
  next
    case False
    with assms(2) have k: "k - 13 < 9" by simp
    from len s lp have "9 \<le> length r" by simp
    with k have "take 9 r ! (k - 13) \<in> set (take 9 r)" by (intro nth_mem) simp
    with hex have "is_hex_digit (take 9 r ! (k - 13))" by (simp add: list_all_iff)
    moreover from k have "take 9 r ! (k - 13) = r ! (k - 13)" by simp
    moreover from False lp have "s ! k = r ! (k - 13)" unfolding s by (simp add: nth_append)
    ultimately show ?thesis by (simp add: pattern_char_def)
  qed
qed

lemma addresses_delimited_drop: "addresses_delimited s \<Longrightarrow> addresses_delimited (drop k s)"
proof (induction s arbitrary: k)
  case Nil
  then show ?case by simp
next
  case (Cons c cs)
  then show ?case by (cases k) simp_all
qed

text \<open>A text without a match is left as it is, and the first match is cut out.\<close>

lemma sub_address_clean: "\<not> has_address s \<Longrightarrow> sub_address s = s"
  by (induction s) simp_all

lemma sub_address_deletes:
  assumes "\<forall>k<length u. \<not> address_at (drop k (u @ m @ r))" "address_at (m @ r)" "length m = 22"
  shows "sub_address (u @ m @ r) = u @ sub_address r"
  using assms(1)
proof (induction u)
  case Nil
  from assms(3) obtain c cs where m: "m = c # cs" by (cases m) auto
  with assms(3) have "drop 21 (cs @ r) = r" by simp
  with assms(2) m show ?case by simp
next
  case (Cons a u)
  from Cons.prems have "\<not> address_at (drop 0 ((a # u) @ m @ r))" by blast
  then have n: "\<not> address_at (a # u @ m @ r)" by simp
  have "\<forall>k<length u. \<not> address_at (drop k (u @ m @ r))"
  proof (intro allI impI)
    fix k assume "k < length u"
    then have "Suc k < length (a # u)" by simp
    with Cons.prems have "\<not> address_at (drop (Suc k) ((a # u) @ m @ r))" by blast
    then show "\<not> address_at (drop k (u @ m @ r))" by simp
  qed
  from Cons.IH [OF this] n show ?case by simp
qed

text \<open>A window at the start of the normalised text agrees with the original text, or
  holds a character that no match contains, or reaches beyond the end.\<close>

lemma sub_address_window:
  "addresses_delimited s \<Longrightarrow>
     take n (sub_address s) = take n s
     \<or> (\<exists>j<n. j < length (sub_address s) \<and> \<not> pattern_char (sub_address s ! j))
     \<or> length (sub_address s) < n"
proof (induction s arbitrary: n rule: sub_address.induct)
  case 1
  then show ?case by simp
next
  case (2 c cs)
  show ?case
  proof (cases n)
    case 0
    then show ?thesis by simp
  next
    case (Suc n')
    show ?thesis
    proof (cases "address_at (c # cs)")
      case True
      then have sub: "sub_address (c # cs) = sub_address (drop 21 cs)" by simp
      show ?thesis
      proof (cases "drop 21 cs")
        case Nil
        with sub Suc show ?thesis by simp
      next
        case (Cons y ys)
        with True "2.prems" have y: "\<not> pattern_char y" by simp
        have "\<not> address_at (y # ys)"
        proof
          assume "address_at (y # ys)"
          from address_at_pattern_char [OF this, of 0] y show False by simp
        qed
        with sub Cons have "sub_address (c # cs) = y # sub_address ys" by simp
        with y Suc show ?thesis by auto
      qed
    next
      case False
      then have sub: "sub_address (c # cs) = c # sub_address cs" by simp
      from "2.prems" have "addresses_delimited cs" by simp
      from "2.IH"(2) [OF False this, of n']
      consider "take n' (sub_address cs) = take n' cs"
        | j where "j < n'" "j < length (sub_address cs)" "\<not> pattern_char (sub_address cs ! j)"
        | "length (sub_address cs) < n'" by blast
      then show ?thesis
      proof cases
        case 1
        with sub Suc show ?thesis by simp
      next
        case 2
        then have "Suc j < n \<and> Suc j < length (sub_address (c # cs))
            \<and> \<not> pattern_char (sub_address (c # cs) ! Suc j)"
          using sub Suc by simp
        then show ?thesis by blast
      next
        case 3
        with sub Suc show ?thesis by simp
      qed
    qed
  qed
qed

text \<open>When every match is so delimited, the one pass leaves no match behind.\<close>

lemma sub_address_no_address:
  "addresses_delimited s \<Longrightarrow> \<not> has_address (sub_address s)"
proof (induction s rule: sub_address.induct)
  case 1
  then show ?case by simp
next
  case (2 c cs)
  show ?case
  proof (cases "address_at (c # cs)")
    case True
    from addresses_delimited_drop [OF "2.prems", of 22]
    have "addresses_delimited (drop 21 cs)" by simp
    from "2.IH"(1) [OF True this] True show ?thesis by simp
  next
    case False
    from "2.prems" have d: "addresses_delimited cs" by simp
    from "2.IH"(2) [OF False d] have ih: "\<not> has_address (sub_address cs)" .
    have "\<not> address_at (c # sub_address cs)"
    proof
      assume a: "address_at (c # sub_address cs)"
      from sub_address_window [OF d, of 21]
      consider "take 21 (sub_address cs) = take 21 cs"
        | j where "j < 21" "j < length (sub_address cs)" "\<not> pattern_char (sub_address cs ! j)"
        | "length (sub_address cs) < 21" by blast
      then show False
      proof cases
        case 1
        then have "take 22 (c # sub_address cs) = take 22 (c # cs)" by simp
        from address_at_take_eq [OF this] a False show False by simp
      next
        case 2
        from 2(1) have "Suc j < 22" by simp
        from address_at_pattern_char [OF a this] 2(3) show False by simp
      next
        case 3
        with a show False by (simp add: address_at_def)
      qed
    qed
    with ih False show ?thesis by simp
  qed
qed

text \<open>
  C10 (amended). \<open>processFunctionDoc\<close> first deletes, in one pass from the left, every
  non-overlapping match of \<open>" object at 0x"\<close> followed by nine hexadecimal digits, and takes
  the signatures and comments from the text so normalised. When every match in the
  documentation ends the text or is followed by a character that no match contains
  (neither a hexadecimal digit nor a character of \<open>" object at 0x"\<close>), as the \<open>>\<close> of
  \<open><Motor object at 0x104f3c2b0>\<close>, no signature and no comment returned contains such an
  address.
\<close>

theorem processFunctionDoc_no_address:
  assumes "processFunctionDoc env obj = Inr (signatures, comments)"
    and "dunder_doc (heap env obj) = Some d"
    and "addresses_delimited d"
  shows "\<forall>s \<in> set signatures \<union> set comments. \<not> has_address s"
  using processFunctionDoc_sublist [OF assms(1,2)] sub_address_no_address [OF assms(3)]
    has_address_sublist by blast

theorem processFunctionDoc_no_address_witness:
  "has_address ''get() -> Motor\<newline>Returns <Motor object at 0x104f3c2b0>.\<newline>''
   \<and> processFunctionDoc
       (doc_env ''get'' ''get() -> Motor\<newline>Returns <Motor object at 0x104f3c2b0>.\<newline>'') 0
     = Inr ([''get() -> Motor''], [''Returns <Motor>.''])
   \<and> \<not> has_address ''get() -> Motor''
   \<and> \<not> has_address ''Returns <Motor>.''"
proof -
  let ?d = "''get() -> Motor\<newline>Returns <Motor object at 0x104f3c2b0>.\<newline>''"
  have h0: "has_address ?d" by code_simp
  have h1: "processFunctionDoc (doc_env ''get'' ?d) 0
      = Inr ([''get() -> Motor''], [''Returns <Motor>.''])"
    by code_simp
  have h2: "dunder_doc (heap (doc_env ''get'' ?d) 0) = Some ?d"
    by (simp add: doc_env_def routine_obj_def)
  have h3: "addresses_delimited ?d" by code_simp
  from processFunctionDoc_no_address [OF h1 h2 h3]
  have c: "\<not> has_address ''get() -> Motor'' \<and> \<not> has_address ''Returns <Motor>.''"
    by (simp del: has_address.simps)
  show ?thesis by (rule conjI [OF h0 conjI [OF h1 c]])
qed

text \<open>
  C10 (as stated, refuted). Deleting a match can join its neighbours into a new match,
  which the single pass does not delete: the returned comment still contains an address.
  The match deleted here is followed by the digit \<open>6\<close>.
\<close>

theorem processFunctionDoc_address_survives:
  "processFunctionDoc
     (doc_env ''f'' ''f() -> None\<newline><X object at 0x12345 object at 0x1234567896789>'') 0
     = Inr ([''f() -> None''], [''<X object at 0x123456789>''])
   \<and> has_address ''<X object at 0x123456789>''
   \<and> \<not> addresses_delimited
         ''f() -> None\<newline><X object at 0x12345 object at 0x1234567896789>''"
  by code_simp

subsection \<open>Default values of function blocks\<close>

lemma str_nat_digits:
  "foldl (\<lambda>a c. 10 * a + (of_char c - (48::nat))) 0 (str_nat n) = n"
proof (induction n rule: str_nat.induct)
  case (1 n)
  show ?case
  proof (cases "n < 10")
    case True
    then show ?thesis by (subst str_nat.simps) simp
  next
    case False
    have "n mod 10 < 10" by simp
    then have "of_char (char_of (48 + n mod 10)) - (48::nat) = n mod 10" by simp
    with False "1.IH" show ?thesis by (subst str_nat.simps) simp
  qed
qed

lemma arg_key_inj: "arg_key i = arg_key j \<Longrightarrow> i = j"
proof -
  assume "arg_key i = arg_key j"
  then have "str_nat i = str_nat j" by (simp add: arg_key_def)
  then have "foldl (\<lambda>a c. 10 * a + (of_char c - (48::nat))) 0 (str_nat i)
      = foldl (\<lambda>a c. 10 * a + (of_char c - (48::nat))) 0 (str_nat j)" by simp
  then show "i = j" by (simp only: str_nat_digits)
qed

lemma map_of_dict_set: "map_of (dict_set k v d) k' = (if k' = k then Some v else map_of d k')"
  by (induction d) auto

lemma generateFunctionBlock_body_effect:
  assumes "i < length arg_types" "i < length arg_default_values"
    and "varNameForType aliases (arg_types ! i) = Some var_name"
  shows "generateFunctionBlock_body b aliases arg_names arg_types arg_default_values i
           (args, inputs, warnings)
       = Some (Inr (args @ [(arg_names ! i, arg_types ! i)],
            (case fst (argument_effect b var_name (arg_types ! i) (arg_default_values ! i)) of
               None \<Rightarrow> inputs | Some x \<Rightarrow> dict_set (arg_key i) x inputs),
            (case snd (argument_effect b var_name (arg_types ! i) (arg_default_values ! i)) of
               None \<Rightarrow> warnings | Some t \<Rightarrow> warnings @ [t])))"
  using assms
  by (auto simp: generateFunctionBlock_body_def argument_effect_def Let_def
      split: option.splits prod.splits)

lemma generateFunctionBlock_for_effect:
  assumes "distinct is"
    and "\<forall>j \<in> set is. j < length arg_types \<and> j < length arg_default_values
           \<and> varNameForType aliases (arg_types ! j) = Some (vn j)"
  shows "\<exists>args' inputs'.
      generateFunctionBlock_for b aliases arg_names arg_types arg_default_values is
          (args, inputs, warnings)
        = Some (Inr (args', inputs',
            warnings @ List.map_filter
              (\<lambda>i. snd (argument_effect b (vn i) (arg_types ! i) (arg_default_values ! i))) is))
      \<and> (\<forall>i. map_of inputs' (arg_key i) =
            (if i \<in> set is
             then (case fst (argument_effect b (vn i) (arg_types ! i) (arg_default_values ! i)) of
                     None \<Rightarrow> map_of inputs (arg_key i) | Some x \<Rightarrow> Some x)
             else map_of inputs (arg_key i)))"
  using assms
proof (induction "is" arbitrary: args inputs warnings)
  case Nil
  show ?case by (simp add: List.map_filter_simps)
next
  case (Cons j js)
  let ?eff = "\<lambda>i. argument_effect b (vn i) (arg_types ! i) (arg_default_values ! i)"
  let ?args1 = "args @ [(arg_names ! j, arg_types ! j)]"
  let ?inputs1 = "case fst (?eff j) of None \<Rightarrow> inputs | Some x \<Rightarrow> dict_set (arg_key j) x inputs"
  let ?warnings1 = "case snd (?eff j) of None \<Rightarrow> warnings | Some t \<Rightarrow> warnings @ [t]"
  from Cons.prems have j: "j < length arg_types" "j < length arg_default_values"
    "varNameForType aliases (arg_types ! j) = Some (vn j)" by simp_all
  have body: "generateFunctionBlock_body b aliases arg_names arg_types arg_default_values j
      (args, inputs, warnings) = Some (Inr (?args1, ?inputs1, ?warnings1))"
    by (rule generateFunctionBlock_body_effect [OF j])
  from Cons.prems have d: "distinct js" "j \<notin> set js"
    and r: "\<forall>j \<in> set js. j < length arg_types \<and> j < length arg_default_values
           \<and> varNameForType aliases (arg_types ! j) = Some (vn j)" by simp_all
  from Cons.IH [OF d(1) r, of ?args1 ?inputs1 ?warnings1]
  obtain args' inputs' where
    run: "generateFunctionBlock_for b aliases arg_names arg_types arg_default_values js
        (?args1, ?inputs1, ?warnings1)
      = Some (Inr (args', inputs', ?warnings1 @ List.map_filter (\<lambda>i. snd (?eff i)) js))"
    and inp: "\<forall>i. map_of inputs' (arg_key i) =
        (if i \<in> set js
         then (case fst (?eff i) of None \<Rightarrow> map_of ?inputs1 (arg_key i) | Some x \<Rightarrow> Some x)
         else map_of ?inputs1 (arg_key i))"
    by blast
  have in1: "map_of ?inputs1 (arg_key i) =
      (if i = j then (case fst (?eff j) of None \<Rightarrow> map_of inputs (arg_key i) | Some x \<Rightarrow> Some x)
       else map_of inputs (arg_key i))" for i
    using arg_key_inj [of i j] by (auto simp: map_of_dict_set split: option.splits)
  have w: "?warnings1 @ List.map_filter (\<lambda>i. snd (?eff i)) js
      = warnings @ List.map_filter (\<lambda>i. snd (?eff i)) (j # js)"
    by (simp add: List.map_filter_simps split: option.splits)
  have full: "generateFunctionBlock_for b aliases arg_names arg_types arg_default_values (j # js)
      (args, inputs, warnings)
    = Some (Inr (args', inputs', warnings @ List.map_filter (\<lambda>i. snd (?eff i)) (j # js)))"
    unfolding w [symmetric] by (simp add: body run)
  have c1: "\<forall>i. map_of inputs' (arg_key i) =
      (if i \<in> set (j # js)
       then (case fst (?eff i) of None \<Rightarrow> map_of inputs (arg_key i) | Some x \<Rightarrow> Some x)
       else map_of inputs (arg_key i))"
    using inp in1 d(2) by (auto split: option.splits)
  from full c1 show ?case by blast
qed

lemma createBlock_fields_ok:
  "length field_names \<le> length field_values
     \<Longrightarrow> \<exists>fs. createBlock_fields field_names field_values acc = Inr fs"
  by (induction field_names field_values acc rule: createBlock_fields.induct) simp_all

lemma generateFunctionBlock_returns:
  assumes len: "length arg_types = length arg_names"
      "length arg_default_values = length arg_names"
    and flds: "length field_names \<le> length field_values"
    and tm: "\<forall>t \<in> set arg_types. varNameForType aliases t \<noteq> None"
    and rtm: "varNameForType aliases return_type \<noteq> None"
  shows "\<exists>block.
      generateFunctionBlock b aliases block_type field_names field_values tooltip return_type
          arg_names arg_types arg_default_values import_mod
        = Some (Inr (block,
            argument_warnings b aliases arg_types arg_default_values [0..<length arg_names]))
      \<and> (\<forall>i < length arg_names.
            map_of (function_inputs block) (arg_key i)
              = fst (argument_effect b (the (varNameForType aliases (arg_types ! i)))
                       (arg_types ! i) (arg_default_values ! i)))"
proof -
  let ?vn = "\<lambda>i. the (varNameForType aliases (arg_types ! i))"
  let ?eff = "\<lambda>i. argument_effect b (?vn i) (arg_types ! i) (arg_default_values ! i)"
  let ?ws = "argument_warnings b aliases arg_types arg_default_values [0..<length arg_names]"
  have rng: "\<forall>j \<in> set [0..<length arg_names]. j < length arg_types
      \<and> j < length arg_default_values \<and> varNameForType aliases (arg_types ! j) = Some (?vn j)"
  proof
    fix j assume "j \<in> set [0..<length arg_names]"
    then have j: "j < length arg_names" by simp
    with len have "arg_types ! j \<in> set arg_types" by simp
    with tm have "varNameForType aliases (arg_types ! j) \<noteq> None" by blast
    then have "varNameForType aliases (arg_types ! j) = Some (?vn j)" by auto
    with j len show "j < length arg_types \<and> j < length arg_default_values
        \<and> varNameForType aliases (arg_types ! j) = Some (?vn j)" by simp
  qed
  from generateFunctionBlock_for_effect [OF distinct_upt rng, of b arg_names "[]" "[]" "[]"]
  obtain args' inputs' where
    run: "generateFunctionBlock_for b aliases arg_names arg_types arg_default_values
        [0..<length arg_names] ([], [], []) = Some (Inr (args', inputs', ?ws))"
    and inp: "\<forall>i. map_of inputs' (arg_key i) =
        (if i \<in> set [0..<length arg_names]
         then (case fst (?eff i) of None \<Rightarrow> map_of [] (arg_key i) | Some x \<Rightarrow> Some x)
         else map_of [] (arg_key i))"
    unfolding argument_warnings_def by auto
  from createBlock_fields_ok [OF flds, of "[]"] obtain fs where
    fs: "createBlock_fields field_names field_values [] = Inr fs" by blast
  define blk :: "'a block" where
    "blk = Block block_type tooltip return_type args' import_mod
       (if field_names \<noteq> [] then Some fs else None)
       (if inputs' \<noteq> [] then Some inputs' else None)"
  have cb: "createBlock block_type tooltip return_type args' import_mod field_names field_values
      inputs' = Inr blk"
    by (simp add: createBlock_def fs blk_def)
  have fi: "function_inputs blk = inputs'" by (simp add: blk_def)
  from rtm obtain rv where rv: "varNameForType aliases return_type = Some rv" by auto
  define res where "res = (if return_type \<noteq> '''' \<and> return_type \<noteq> ''None'' \<and> rv \<noteq> ''''
                           then VariablesSet rv blk else blk)"
  have g: "generateFunctionBlock b aliases block_type field_names field_values tooltip return_type
      arg_names arg_types arg_default_values import_mod = Some (Inr (res, ?ws))"
    by (simp add: generateFunctionBlock_def run cb rv res_def)
  have ri: "function_inputs res = inputs'" by (simp add: res_def fi)
  have "\<forall>i < length arg_names. map_of (function_inputs res) (arg_key i) = fst (?eff i)"
    using inp by (auto simp: ri split: option.splits)
  with g show ?thesis by blast
qed

lemma argument_warnings_split:
  assumes "i < n"
  shows "argument_warnings b aliases arg_types arg_default_values [0..<n]
       = argument_warnings b aliases arg_types arg_default_values [0..<i]
         @ (case snd (argument_effect b (the (varNameForType aliases (arg_types ! i)))
                        (arg_types ! i) (arg_default_values ! i)) of
              None \<Rightarrow> [] | Some t \<Rightarrow> [t])
         @ argument_warnings b aliases arg_types arg_default_values [Suc i..<n]"
proof -
  from assms have "[0..<n] = [0..<i] @ [i..<n]"
    using upt_add_eq_append [of 0 i "n - i"] by simp
  moreover from assms have "[i..<n] = i # [Suc i..<n]" by (rule upt_conv_Cons)
  ultimately have "[0..<n] = [0..<i] @ i # [Suc i..<n]" by simp
  then show ?thesis
    by (simp add: argument_warnings_def List.map_filter_def split: option.splits)
qed

text \<open>
  C7 (amended). Let the three argument lists have equal length, let there be a field value
  for every field name, and let the alias loop end for every argument type and for the
  return type. Then \<open>generateFunctionBlock\<close> returns a block and the warnings it has printed,
  and for every argument \<open>i\<close> whose type gives no variable-read socket and whose default
  text \<open>d\<close> is non-empty, the input \<open>ARGi\<close> of the block and the warnings printed, which are
  those of the arguments before \<open>i\<close>, then those of \<open>i\<close>, then those of the arguments after
  \<open>i\<close>, are as follows.
  For type \<open>int\<close>: when \<open>int(d)\<close> (and \<open>float(d)\<close>) parse, the input is the number shadow of
  \<open>float(d)\<close> and argument \<open>i\<close> prints no warning; otherwise the input is absent and
  argument \<open>i\<close> prints exactly the integer warning.
  For type \<open>str\<close>: the input is the text shadow of \<open>d\<close>, except that for \<open>d = "None"\<close> the
  input is absent; in both cases argument \<open>i\<close> prints no warning.
  For type \<open>bool\<close>: when \<open>d\<close> is \<open>True\<close> or \<open>False\<close>, the input is the boolean shadow and
  argument \<open>i\<close> prints no warning; otherwise the input is absent and argument \<open>i\<close> prints
  exactly the boolean warning.
\<close>

theorem generateFunctionBlock_default_inputs:
  assumes "length arg_types = length arg_names" "length arg_default_values = length arg_names"
    and "length field_names \<le> length field_values"
    and "\<forall>t \<in> set arg_types. varNameForType aliases t \<noteq> None"
    and "varNameForType aliases return_type \<noteq> None"
    and "i < length arg_names"
    and "varNameForType aliases (arg_types ! i) = Some ''''"
    and "arg_default_values ! i = Some d" "d \<noteq> ''''"
  shows "\<exists>block warnings.
      generateFunctionBlock b aliases block_type field_names field_values tooltip return_type
          arg_names arg_types arg_default_values import_mod = Some (Inr (block, warnings))
      \<and> (arg_types ! i = ''int'' \<longrightarrow>
           (case (py_int b d, py_float b d) of
              (Some n, Some x) \<Rightarrow>
                map_of (function_inputs block) (arg_key i) = Some (MathNumber x)
                \<and> warnings
                    = argument_warnings b aliases arg_types arg_default_values [0..<i]
                      @ argument_warnings b aliases arg_types arg_default_values
                          [Suc i..<length arg_names]
            | _ \<Rightarrow>
                map_of (function_inputs block) (arg_key i) = None
                \<and> warnings
                    = argument_warnings b aliases arg_types arg_default_values [0..<i]
                      @ [warning_integer d]
                      @ argument_warnings b aliases arg_types arg_default_values
                          [Suc i..<length arg_names]))
      \<and> (arg_types ! i = ''str'' \<longrightarrow>
           map_of (function_inputs block) (arg_key i)
             = (if d = ''None'' then None else Some (valueString d))
           \<and> warnings
               = argument_warnings b aliases arg_types arg_default_values [0..<i]
                 @ argument_warnings b aliases arg_types arg_default_values
                     [Suc i..<length arg_names])
      \<and> (arg_types ! i = ''bool'' \<longrightarrow>
           (if d = ''True'' \<or> d = ''False''
            then map_of (function_inputs block) (arg_key i) = Some (valueBoolean d)
                 \<and> warnings
                     = argument_warnings b aliases arg_types arg_default_values [0..<i]
                       @ argument_warnings b aliases arg_types arg_default_values
                           [Suc i..<length arg_names]
            else map_of (function_inputs block) (arg_key i) = None
                 \<and> warnings
                     = argument_warnings b aliases arg_types arg_default_values [0..<i]
                       @ [warning_boolean d]
                       @ argument_warnings b aliases arg_types arg_default_values
                           [Suc i..<length arg_names]))"
proof -
  let ?before = "argument_warnings b aliases arg_types arg_default_values [0..<i]"
  let ?after = "argument_warnings b aliases arg_types arg_default_values
                  [Suc i..<length arg_names]"
  let ?ws = "argument_warnings b aliases arg_types arg_default_values [0..<length arg_names]"
  from generateFunctionBlock_returns [OF assms(1-5), of b block_type tooltip import_mod]
  obtain block where
    g: "generateFunctionBlock b aliases block_type field_names field_values tooltip return_type
        arg_names arg_types arg_default_values import_mod = Some (Inr (block, ?ws))"
    and eff: "\<forall>i < length arg_names.
        map_of (function_inputs block) (arg_key i)
          = fst (argument_effect b (the (varNameForType aliases (arg_types ! i)))
                   (arg_types ! i) (arg_default_values ! i))"
    by blast
  have ae: "argument_effect b (the (varNameForType aliases (arg_types ! i))) (arg_types ! i)
      (arg_default_values ! i) = default_value_input b (arg_types ! i) d"
    using assms(7-9) by (simp add: argument_effect_def)
  from eff assms(6) ae have
    m: "map_of (function_inputs block) (arg_key i) = fst (default_value_input b (arg_types ! i) d)"
    by auto
  have w: "?ws = ?before
      @ (case snd (default_value_input b (arg_types ! i) d) of None \<Rightarrow> [] | Some t \<Rightarrow> [t])
      @ ?after"
    using argument_warnings_split [OF assms(6), of b aliases arg_types arg_default_values] ae
    by simp
  have c1: "arg_types ! i = ''int'' \<longrightarrow>
      (case (py_int b d, py_float b d) of
         (Some n, Some x) \<Rightarrow> map_of (function_inputs block) (arg_key i) = Some (MathNumber x)
             \<and> ?ws = ?before @ ?after
       | _ \<Rightarrow> map_of (function_inputs block) (arg_key i) = None
               \<and> ?ws = ?before @ [warning_integer d] @ ?after)"
    unfolding m w by (auto simp: default_value_input_def valueNumber_def split: option.splits)
  have c2: "arg_types ! i = ''str'' \<longrightarrow>
      map_of (function_inputs block) (arg_key i)
        = (if d = ''None'' then None else Some (valueString d))
      \<and> ?ws = ?before @ ?after"
    unfolding m w by (auto simp: default_value_input_def)
  have c3: "arg_types ! i = ''bool'' \<longrightarrow>
      (if d = ''True'' \<or> d = ''False''
       then map_of (function_inputs block) (arg_key i) = Some (valueBoolean d)
            \<and> ?ws = ?before @ ?after
       else map_of (function_inputs block) (arg_key i) = None
            \<and> ?ws = ?before @ [warning_boolean d] @ ?after)"
    unfolding m w by (auto simp: default_value_input_def)
  from g c1 c2 c3 show ?thesis by blast
qed

theorem generateFunctionBlock_default_inputs_witness:
  "\<exists>block warnings.
     generateFunctionBlock decimal_builtins Map.empty ''mrc_call_python_function''
         [''FUNC''] [''move''] ''Moves.'' ''None''
         [''n'', ''s'', ''b''] [''int'', ''str'', ''bool''] [Some ''5'', Some ''None'', Some ''yes'']
         ''robot'' = Some (Inr (block, warnings))
     \<and> map_of (function_inputs block) ''ARG1'' = None
     \<and> warnings = [warning_boolean ''yes'']"
proof -
  have h1: "length [''int'', ''str'', ''bool''] = length [''n'', ''s'', ''b'']" by simp
  have h2: "length [Some ''5'', Some ''None'', Some ''yes''] = length [''n'', ''s'', ''b'']" by simp
  have h3: "length [''FUNC''] \<le> length [''move'']" by simp
  have v: "varNameForType Map.empty t = Some (varNameForType_name t)" for t
    by (simp add: varNameForType_def varNameForType_while.simps)
  have h4: "\<forall>t \<in> set [''int'', ''str'', ''bool'']. varNameForType Map.empty t \<noteq> None"
    by (simp add: v)
  have h5: "varNameForType Map.empty ''None'' \<noteq> None" by (simp add: v)
  have h6: "1 < length [''n'', ''s'', ''b'']" by simp
  have "varNameForType_name ''str'' = ''''" by code_simp
  then have h7: "varNameForType Map.empty ([''int'', ''str'', ''bool''] ! 1) = Some ''''"
    by (simp add: v)
  have h8: "[Some ''5'', Some ''None'', Some ''yes''] ! 1 = Some ''None''" by simp
  have h9: "''None'' \<noteq> ''''" by simp
  have k: "arg_key 1 = ''ARG1''" by code_simp
  have bf: "argument_warnings decimal_builtins Map.empty [''int'', ''str'', ''bool'']
      [Some ''5'', Some ''None'', Some ''yes''] [0..<1] = []"
    by code_simp
  have af: "argument_warnings decimal_builtins Map.empty [''int'', ''str'', ''bool'']
      [Some ''5'', Some ''None'', Some ''yes''] [Suc 1..<length [''n'', ''s'', ''b'']]
      = [warning_boolean ''yes'']"
    by code_simp
  from generateFunctionBlock_default_inputs [OF h1 h2 h3 h4 h5 h6 h7 h8 h9,
      of decimal_builtins "''mrc_call_python_function''" "''Moves.''" "''robot''"]
  show ?thesis unfolding k bf af by simp
qed

text \<open>
  C7 (as stated, refuted). For the declared type \<open>str\<close> with the default \<open>None\<close> no shadow
  block is built and no warning is printed. The declared type \<open>float\<close> has no branch at all
  (the numeric branch tests for \<open>double\<close>): the default \<open>0\<close>, which \<open>float\<close> parses, gives
  neither an input nor a warning. The block returned has no inputs and the list of
  warnings is empty.
\<close>

theorem generateFunctionBlock_float_and_None_defaults:
  "generateFunctionBlock decimal_builtins Map.empty ''mrc_call_python_function'' [] [] ''Moves.''
       ''None'' [''x'', ''s''] [''float'', ''str''] [Some ''0'', Some ''None''] ''robot''
     = Some (Inr (Block ''mrc_call_python_function'' ''Moves.'' ''None''
                    [(''x'', ''float''), (''s'', ''str'')] ''robot'' None None, []))
   \<and> py_float decimal_builtins ''0'' = Some 0"
  by code_simp

subsection \<open>The walk over modules and classes\<close>

lemma keeps_walk_invD:
  "keeps_walk_inv recurse \<Longrightarrow> recurse obj st = Some st' \<Longrightarrow> walk_inv st \<Longrightarrow> walk_inv st'"
  unfolding keeps_walk_inv_def by blast

lemma record_alias_inv: "walk_inv st \<Longrightarrow> walk_inv (record_alias env obj key member st)"
  by (cases st) (simp add: record_alias_def walk_inv_def Let_def)

lemma collect_mro_inv:
  assumes "keeps_walk_inv recurse"
  shows "collect_mro recurse env mro st = Some st' \<Longrightarrow> walk_inv st \<Longrightarrow> walk_inv st'"
proof (induction mro arbitrary: st)
  case Nil
  then show ?case by simp
next
  case (Cons cls mro)
  show ?case
  proof (cases "isBuiltInClass env cls")
    case True
    with Cons.prems show ?thesis by simp
  next
    case False
    with Cons.prems(1) obtain st1 where s: "recurse cls st = Some st1"
      "collect_mro recurse env mro st1 = Some st'"
      by (auto simp: bind_eq_Some_conv)
    from keeps_walk_invD [OF assms s(1) Cons.prems(2)] have "walk_inv st1" .
    with Cons.IH s(2) show ?thesis by blast
  qed
qed

lemma collect_signature_inv:
  assumes "keeps_walk_inv recurse"
  shows "collect_signature recurse env clss st = Some st' \<Longrightarrow> walk_inv st \<Longrightarrow> walk_inv st'"
proof (induction clss arbitrary: st)
  case Nil
  then show ?case by simp
next
  case (Cons cls clss)
  show ?case
  proof (cases "isBuiltInClass env cls")
    case True
    with Cons show ?thesis by simp
  next
    case False
    with Cons.prems(1) obtain st1 where s: "recurse cls st = Some st1"
      "collect_signature recurse env clss st1 = Some st'"
      by (auto simp: bind_eq_Some_conv)
    from keeps_walk_invD [OF assms s(1) Cons.prems(2)] have "walk_inv st1" .
    with Cons.IH s(2) show ?thesis by blast
  qed
qed

lemma collect_member_inv:
  assumes k: "keeps_walk_inv recurse"
    and run: "collect_member recurse env obj key member st = Some st'"
    and inv: "walk_inv st"
  shows "walk_inv st'"
proof -
  from run obtain st1 st2 st3 st4 where
    s1: "(if ismodule env member then recurse member (record_alias env obj key member st)
          else Some (record_alias env obj key member st)) = Some st1"
    and s2: "(if isclass env member then collect_mro recurse env (getmro (heap env member)) st1
              else Some st1) = Some st2"
    and s3: "(case dunder_doc (heap env member) of
                None \<Rightarrow> Some st2
              | Some doc \<Rightarrow>
                  if isroutine env member \<and> doc \<noteq> [] then
                    (case getClassesFromSignatureLine env (first_line doc) of
                       None \<Rightarrow> None
                     | Some clss \<Rightarrow> collect_signature recurse env clss st2)
                  else Some st2) = Some st3"
    and s4: "(if isNothing env member \<and> \<not> isBuiltInClass env (type_of (heap env member))
              then recurse (type_of (heap env member)) st3
              else Some st3) = Some st4"
    and s5: "(case getter_class env member of
                None \<Rightarrow> Some st4
              | Some cls \<Rightarrow> recurse cls st4) = Some st'"
    unfolding collect_member_def bind_eq_Some_conv by blast
  have i0: "walk_inv (record_alias env obj key member st)" using inv by (rule record_alias_inv)
  have i1: "walk_inv st1"
    using s1 i0 keeps_walk_invD [OF k] by (auto split: if_splits)
  have i2: "walk_inv st2"
    using s2 i1 collect_mro_inv [OF k] by (auto split: if_splits)
  have i3: "walk_inv st3"
    using s3 i2 collect_signature_inv [OF k] by (auto split: option.splits if_splits)
  have i4: "walk_inv st4"
    using s4 i3 keeps_walk_invD [OF k] by (auto split: if_splits)
  show ?thesis
    using s5 i4 keeps_walk_invD [OF k] by (auto split: option.splits)
qed

lemma collect_members_inv:
  assumes "keeps_walk_inv recurse"
  shows "collect_members recurse env obj members st = Some st' \<Longrightarrow> walk_inv st \<Longrightarrow> walk_inv st'"
proof (induction members arbitrary: st)
  case Nil
  then show ?case by simp
next
  case (Cons km members)
  obtain key member where km: "km = (key, member)" by (cases km)
  show ?case
  proof (cases "key = ''_'' \<or> ignoreMember env obj key member")
    case True
    with Cons.prems(1) km have "collect_members recurse env obj members st = Some st'"
      by (auto split: if_splits)
    with Cons.IH Cons.prems(2) show ?thesis by blast
  next
    case False
    with Cons.prems(1) km obtain st1 where s:
      "collect_member recurse env obj key member st = Some st1"
      "collect_members recurse env obj members st1 = Some st'"
      by (auto simp: bind_eq_Some_conv)
    from collect_member_inv [OF assms s(1) Cons.prems(2)] have "walk_inv st1" .
    with Cons.IH s(2) show ?thesis by blast
  qed
qed

lemma collect_inv: "keeps_walk_inv (collect n env)"
proof (induction n)
  case 0
  show ?case by (simp add: keeps_walk_inv_def)
next
  case (Suc n)
  show ?case
    unfolding keeps_walk_inv_def
  proof (intro allI impI)
    fix obj st st'
    assume run: "collect (Suc n) env obj st = Some st'" and inv: "walk_inv st"
    obtain modules classes aliases ids where st: "st = (modules, classes, aliases, ids)"
      by (cases st)
    show "walk_inv st'"
    proof (cases "obj \<in> set ids")
      case True
      with run st inv show ?thesis by simp
    next
      case False
      let ?modules = "if ismodule env obj \<and> obj \<notin> set modules then modules @ [obj] else modules"
      let ?classes = "if isclass env obj \<and> obj \<notin> set classes then classes @ [obj] else classes"
      have i1: "walk_inv (modules, classes, aliases, ids @ [obj])"
        using inv False st by (auto simp: walk_inv_def)
      have i2: "walk_inv (?modules, classes, aliases, ids @ [obj])"
        using inv False st by (auto simp: walk_inv_def)
      have i3: "walk_inv (?modules, ?classes, aliases, ids @ [obj])"
        using inv False st by (auto simp: walk_inv_def)
      consider (bm) "ismodule env obj \<and> isBuiltInModule env obj"
        | (bc) "\<not> (ismodule env obj \<and> isBuiltInModule env obj)"
               "isclass env obj \<and> isBuiltInClass env obj"
        | (go) "\<not> (ismodule env obj \<and> isBuiltInModule env obj)"
               "\<not> (isclass env obj \<and> isBuiltInClass env obj)"
        by blast
      then show ?thesis
      proof cases
        case bm
        with run st False have "st' = (modules, classes, aliases, ids @ [obj])" by simp
        with i1 show ?thesis by simp
      next
        case bc
        with run st False have "st' = (?modules, classes, aliases, ids @ [obj])" by simp
        with i2 show ?thesis by simp
      next
        case go
        with run st False have "collect_members (collect n env) env obj (getmembers (heap env obj))
            (?modules, ?classes, aliases, ids @ [obj]) = Some st'" by simp
        from collect_members_inv [OF Suc this i3] show ?thesis .
      qed
    qed
  qed
qed

lemma collectModulesAndClasses_for_inv:
  "collectModulesAndClasses_for n env root_modules st = Some st' \<Longrightarrow> walk_inv st \<Longrightarrow> walk_inv st'"
proof (induction root_modules arbitrary: st)
  case Nil
  then show ?case by simp
next
  case (Cons m root_modules)
  from Cons.prems(1) obtain st1 where s: "collect n env m st = Some st1"
    "collectModulesAndClasses_for n env root_modules st1 = Some st'"
    by (auto simp: bind_eq_Some_conv)
  from keeps_walk_invD [OF collect_inv s(1) Cons.prems(2)] have "walk_inv st1" .
  with Cons.IH s(2) show ?case by blast
qed

text \<open>
  C8. Whenever the walk of \<open>collectModulesAndClasses\<close> over the root modules finishes, from
  whatever object graph and with whatever sharing between the roots, the list \<open>ids\<close> of the
  objects whose body was entered has no duplicates (each object is entered at most once
  across all roots), and the modules and the sorted classes returned have no duplicates:
  their lengths are the numbers of distinct objects in them.
\<close>

theorem collectModulesAndClasses_no_duplicates:
  assumes "collectModulesAndClasses_for n env root_modules ([], [], [], [])
             = Some (modules, classes, aliases, ids)"
  shows "distinct ids
       \<and> collectModulesAndClasses n env root_modules
           = Some (modules, sort_key (getFullClassName env) classes, aliases)
       \<and> distinct modules \<and> distinct (sort_key (getFullClassName env) classes)
       \<and> length modules = card (set modules)
       \<and> length (sort_key (getFullClassName env) classes)
           = card (set (sort_key (getFullClassName env) classes))"
proof -
  have "walk_inv ([], [], [], [])" by (simp add: walk_inv_def)
  from collectModulesAndClasses_for_inv [OF assms this]
  have d: "distinct ids" "distinct modules" "distinct classes"
    by (simp_all add: walk_inv_def)
  have r: "collectModulesAndClasses n env root_modules
      = Some (modules, sort_key (getFullClassName env) classes, aliases)"
    by (simp add: collectModulesAndClasses_def assms)
  from d r show ?thesis by (simp add: distinct_card)
qed

theorem collectModulesAndClasses_no_duplicates_witness:
  "distinct [1, 3, 2 :: nat]
   \<and> collectModulesAndClasses 20 shared_env [1, 2]
       = Some ([1, 2], [3], [(''robot.drive.Engine'', ''robot.Motor'')])"
proof -
  have h: "collectModulesAndClasses_for 20 shared_env [1, 2] ([], [], [], [])
      = Some ([1, 2], [3], [(''robot.drive.Engine'', ''robot.Motor'')], [1, 3, 2])"
    by code_simp
  from collectModulesAndClasses_no_duplicates [OF h] show ?thesis by simp
qed

end
